theory Spec2Isabelle
  imports Main "HOL-Library.Word" "HOL-Library.Multiset"
begin


section \<open>The ledger and the configuration\<close>

text \<open>
  One row of the state table created by \<open>main\<close>:
  \<open>filename text, changed timestamp, size bigint, hash_new text, hash_old text\<close>.
  A null column is \<open>None\<close>. The table has no key and no constraint, so it is a list of
  rows. The column \<open>size\<close> is called \<open>size_col\<close> here.
\<close>

record entry =
  filename :: string
  changed :: int
  size_col :: int
  hash_new :: "string option"
  hash_old :: "string option"

type_synonym ledger = "entry list"

text \<open>
  A condition of a \<open>where\<close> clause as it is written, without parentheses: primary
  conditions joined by \<open>and\<close> and \<open>or\<close>, in reading order. A primary condition (a
  comparison, a \<open>like\<close>, a parenthesised condition) is kept as its text together with
  the row predicate that the text denotes. \<open>AndC t p w\<close> is the text \<open>t and w\<close>,
  \<open>OrC t p w\<close> the text \<open>t or w\<close>.
\<close>

datatype cond =
  Prim string "entry \<Rightarrow> bool"
| AndC string "entry \<Rightarrow> bool" cond
| OrC string "entry \<Rightarrow> bool" cond

fun cond_text :: "cond \<Rightarrow> string" where
  "cond_text (Prim t p) = t"
| "cond_text (AndC t p w) = t @ '' and '' @ cond_text w"
| "cond_text (OrC t p w) = t @ '' or '' @ cond_text w"

text \<open>
  SQL reads such a text with \<open>and\<close> binding tighter than \<open>or\<close>: a disjunction of
  conjunctions. \<open>disjuncts\<close> are the conjunctions in reading order.
\<close>

fun disjuncts :: "cond \<Rightarrow> (entry \<Rightarrow> bool) list list" where
  "disjuncts (Prim t p) = [[p]]"
| "disjuncts (AndC t p w) = (case disjuncts w of [] \<Rightarrow> [[p]] | g # gs \<Rightarrow> (p # g) # gs)"
| "disjuncts (OrC t p w) = [p] # disjuncts w"

definition holds :: "cond \<Rightarrow> entry \<Rightarrow> bool" where
  "holds w r = list_ex (list_all (\<lambda>p. p r)) (disjuncts w)"

text \<open>
  The \<open>conf\<close> struct. \<open>Where_clause\<close> is a raw fragment of SQL in the source; the empty
  string is \<open>None\<close>, any other fragment is \<open>Some w\<close> with \<open>cond_text w\<close> the fragment.
  \<open>Db_maxconnections\<close> is what \<open>init_db\<close> gives to \<open>db.SetMaxOpenConns\<close>: the most
  connections that are open at a time, no limit when it is zero or less.
\<close>

record conf =
  New_path :: string
  Old_path :: string
  Db_connstr :: string
  Table_name :: string
  Where_clause :: "cond option"
  Db_maxconnections :: int
  Db_idleconnections :: int

datatype side = New | Old

section \<open>The world outside the program\<close>

type_synonym byte = "8 word"

text \<open>What \<open>os.Open\<close> followed by \<open>io.Copy\<close> gives for a path.\<close>

datatype file_read = OpenError string | ReadError string | Contents "byte list"

text \<open>\<open>os.FileInfo\<close>, as far as the program looks at it.\<close>

record file_info =
  IsDir :: bool
  IsRegular :: bool
  Size :: int
  ModTime :: int

text \<open>
  The destination tree at the time of the walk. \<open>Reg size mtime\<close> is a regular file,
  \<open>Special\<close> anything \<open>Lstat\<close> reports as neither directory nor regular file (a symbolic
  link, a device), \<open>Dir readable entries\<close> a directory whose names can be listed only
  when \<open>readable\<close>, \<open>Vanished\<close> a name for which \<open>Lstat\<close> fails.
\<close>

datatype node = Reg int int | Special | Dir bool "(string \<times> node) list" | Vanished

text \<open>
  Everything the run depends on and does not decide: the file system, the digest
  function of \<open>crypto/sha256\<close>, which calls to the database return an error, and how
  the goroutines are scheduled. Every call on the file system and on the database
  returns, with or without an error; a call on the database may have to wait for a
  connection first.

  \<open>result_order s\<close> chooses the order in which the query of the phase of side \<open>s\<close>
  returns its rows (the query has no \<open>order by\<close>). \<open>scan_fails s = Some k\<close>: in that
  phase \<open>res.Scan\<close> returns an error for row \<open>k\<close> of the result (counted from 0).
  \<open>rows_err s = Some k\<close>: \<open>res.Next\<close> returns false after \<open>k\<close> rows because of an error,
  which only \<open>res.Err\<close> would tell from the end of the result. \<open>schedule s\<close> chooses, step by step, which goroutine of the phase goes
  on; \<open>stage_order\<close> chooses the order in which the rows of the walkers reach the
  prepared statement. \<open>reserved_words\<close> are the reserved words of the server, and
  \<open>other_table\<close> is the table that the table name names when it is written without
  quotes and then is not the name of the ledger (\<open>None\<close> when such a statement is
  refused).
\<close>

record env =
  fs_tree :: node
  fs_read :: "string \<Rightarrow> file_read"
  sha256 :: "byte list \<Rightarrow> byte list"
  create_fails :: bool
  count_fails :: bool
  begin_fails :: bool
  prepare_fails :: bool
  stage_fails :: "entry \<Rightarrow> bool"
  flush_fails :: bool
  close_fails :: bool
  commit_fails :: bool
  query_fails :: "side \<Rightarrow> bool"
  result_order :: "side \<Rightarrow> nat list"
  rows_err :: "side \<Rightarrow> nat option"
  scan_fails :: "side \<Rightarrow> nat option"
  update_fails :: "side \<Rightarrow> string \<Rightarrow> string option"
  schedule :: "side \<Rightarrow> nat list"
  stage_order :: "nat list"
  reserved_words :: "string \<Rightarrow> bool"
  other_table :: "ledger option"


section \<open>The hash workers\<close>

text \<open>\<open>fmt.Sprintf("%x", hash)\<close> of a byte slice: two lowercase digits for each byte.\<close>

definition hexdigit :: "nat \<Rightarrow> char" where
  "hexdigit n = ''0123456789abcdef'' ! n"

definition hex_byte :: "byte \<Rightarrow> string" where
  "hex_byte b = [hexdigit (unat b div 16), hexdigit (unat b mod 16)]"

definition sprintf_x :: "byte list \<Rightarrow> string" where
  "sprintf_x bs = concat (map hex_byte bs)"

definition root_path :: "side \<Rightarrow> conf \<Rightarrow> string" where
  "root_path s c = (case s of New \<Rightarrow> New_path c | Old \<Rightarrow> Old_path c)"

definition hash_col :: "side \<Rightarrow> entry \<Rightarrow> string option" where
  "hash_col s r = (case s of New \<Rightarrow> hash_new r | Old \<Rightarrow> hash_old r)"

definition set_col :: "side \<Rightarrow> string \<Rightarrow> entry \<Rightarrow> entry" where
  "set_col s h r = (case s of New \<Rightarrow> r\<lparr>hash_new := Some h\<rparr> | Old \<Rightarrow> r\<lparr>hash_old := Some h\<rparr>)"

text \<open>
  \<open>update T set hash_new = $2 where filename = $1\<close> (and the same for \<open>hash_old\<close>):
  every row with that filename gets the value.
\<close>

definition update_hash :: "side \<Rightarrow> string \<Rightarrow> string \<Rightarrow> ledger \<Rightarrow> ledger" where
  "update_hash s file h db = map (\<lambda>r. if filename r = file then set_col s h r else r) db"

text \<open>
  The body of the loop of \<open>hash_new_file\<close> and \<open>hash_old_file\<close> for one filename taken
  from the channel. The state is the table and the lines written to the log (without
  the logger's date and position prefix).
\<close>

definition hash_one :: "side \<Rightarrow> conf \<Rightarrow> env \<Rightarrow> string \<Rightarrow> ledger \<times> string list \<Rightarrow> ledger \<times> string list" where
  "hash_one s c e file st =
     (case fs_read e (root_path s c @ ''/'' @ file) of
        OpenError err \<Rightarrow> (fst st, snd st @ [''error opening: '' @ file @ '': '' @ err])
      | ReadError err \<Rightarrow> (fst st, snd st @ [''error reading from '' @ file @ '': '' @ err])
      | Contents bs \<Rightarrow>
          (case update_fails e s file of
             Some err \<Rightarrow> (fst st, snd st @ [''error adding hash to DB: '' @ err])
           | None \<Rightarrow> (update_hash s file (sprintf_x (sha256 e bs)) (fst st), snd st)))"

text \<open>
  The workers of one phase drain the channel until it is closed. Each filename is taken
  by one worker and leads to at most one statement on the table. \<open>hash_file\<close> is the
  loop of \<open>hash_new_file\<close> and \<open>hash_old_file\<close> as one worker runs it on the filenames
  it receives. The eight workers of a phase, the channel and the connections are
  \<open>run_pool\<close> below; a phase that completes leaves the table that this loop leaves when
  it is given all the filenames, and the same lines in the log, in the order in which
  the workers got to write them (lemma \<open>phase_completed_result\<close>).
\<close>

fun hash_file :: "side \<Rightarrow> conf \<Rightarrow> env \<Rightarrow> string list \<Rightarrow> ledger \<times> string list \<Rightarrow> ledger \<times> string list" where
  "hash_file s c e [] st = st"
| "hash_file s c e (file # to_hash) st = hash_file s c e to_hash (hash_one s c e file st)"

definition hash_new_file :: "conf \<Rightarrow> env \<Rightarrow> string list \<Rightarrow> ledger \<times> string list \<Rightarrow> ledger \<times> string list" where
  "hash_new_file = hash_file New"

definition hash_old_file :: "conf \<Rightarrow> env \<Rightarrow> string list \<Rightarrow> ledger \<times> string list \<Rightarrow> ledger \<times> string list" where
  "hash_old_file = hash_file Old"


section \<open>Paths\<close>

text \<open>\<open>strings.TrimPrefix\<close>.\<close>

fun has_prefix :: "string \<Rightarrow> string \<Rightarrow> bool" where
  "has_prefix s [] = True"
| "has_prefix [] (p # ps) = False"
| "has_prefix (x # s) (p # ps) = (x = p \<and> has_prefix s ps)"

definition TrimPrefix :: "string \<Rightarrow> string \<Rightarrow> string" where
  "TrimPrefix s p = (if has_prefix s p then drop (length p) s else s)"

text \<open>
  \<open>filepath.Clean\<close> and \<open>filepath.Join\<close> on a system whose separator is the slash:
  the path is cut at the slashes, empty elements and \<open>.\<close> are dropped, \<open>..\<close> removes
  the element before it (or is dropped at the root, or kept in front of a relative
  path), and the rest is put together again; the empty result is \<open>.\<close>.
\<close>

fun split_slash :: "string \<Rightarrow> string list" where
  "split_slash [] = [[]]"
| "split_slash (x # s) =
     (if x = CHR ''/'' then [] # split_slash s
      else (case split_slash s of [] \<Rightarrow> [[x]] | w # ws \<Rightarrow> (x # w) # ws))"

fun join_slash :: "string list \<Rightarrow> string" where
  "join_slash [] = []"
| "join_slash [w] = w"
| "join_slash (w # v # ws) = w @ ''/'' @ join_slash (v # ws)"

fun clean_elems :: "bool \<Rightarrow> string list \<Rightarrow> string list \<Rightarrow> string list" where
  "clean_elems rooted out [] = rev out"
| "clean_elems rooted out (w # ws) =
     (if w = [] \<or> w = ''.'' then clean_elems rooted out ws
      else if w = ''..'' then
        (case out of
           [] \<Rightarrow> if rooted then clean_elems rooted [] ws else clean_elems rooted [w] ws
         | v # vs \<Rightarrow> if v = ''..'' then clean_elems rooted (w # out) ws
                     else clean_elems rooted vs ws)
      else clean_elems rooted (w # out) ws)"

definition filepath_Clean :: "string \<Rightarrow> string" where
  "filepath_Clean path =
     (let rooted = has_prefix path ''/'';
          out = join_slash (clean_elems rooted [] (split_slash path));
          res = (if rooted then ''/'' @ out else out)
      in if res = [] then ''.'' else res)"

definition filepath_Join :: "string \<Rightarrow> string \<Rightarrow> string" where
  "filepath_Join dir name =
     (if dir \<noteq> [] then filepath_Clean (dir @ ''/'' @ name)
      else if name \<noteq> [] then filepath_Clean name
      else [])"

section \<open>The walk\<close>

definition lstat :: "node \<Rightarrow> file_info option" where
  "lstat nd =
     (case nd of
        Reg sz mt \<Rightarrow> Some \<lparr>IsDir = False, IsRegular = True, Size = sz, ModTime = mt\<rparr>
      | Special \<Rightarrow> Some \<lparr>IsDir = False, IsRegular = False, Size = 0, ModTime = 0\<rparr>
      | Dir readable entries \<Rightarrow> Some \<lparr>IsDir = True, IsRegular = False, Size = 0, ModTime = 0\<rparr>
      | Vanished \<Rightarrow> None)"

text \<open>
  What a goroutine can end the process with: a method called on a nil \<open>os.FileInfo\<close>,
  or \<open>die_if\<close> on the error of the named call.
\<close>

datatype panic = NilPointer | DieIf string

datatype walk_err = ErrNil | SkipDir

text \<open>
  What a walker changes: the directories it has sent to \<open>to_walk\<close>, each with the node
  its path names, and the rows it has given to the prepared \<open>COPY\<close> statement.
\<close>

type_synonym walk_state = "(string \<times> node) list \<times> entry list"

type_synonym walk_fn =
  "string \<Rightarrow> node \<Rightarrow> file_info option \<Rightarrow> bool \<Rightarrow> walk_state \<Rightarrow> panic + walk_err \<times> walk_state"

text \<open>
  \<open>filepath.Walk\<close> (as in Go 1.12 and later, where the names of a directory are read
  before the function is called for it): \<open>walk\<close> is its recursive helper, \<open>walk_names\<close>
  the loop over the names of a directory. The function is called with the path, the
  file info (\<open>None\<close> for nil) and whether the error is non-nil; the node is passed along
  for the queue.
\<close>

fun walk :: "walk_fn \<Rightarrow> string \<Rightarrow> node \<Rightarrow> walk_state \<Rightarrow> panic + walk_err \<times> walk_state"
and walk_names :: "walk_fn \<Rightarrow> string \<Rightarrow> (string \<times> node) list \<Rightarrow> walk_state \<Rightarrow> panic + walk_err \<times> walk_state"
where
  "walk fn path (Dir readable entries) st =
     (case fn path (Dir readable entries) (lstat (Dir readable entries)) (\<not> readable) st of
        Inl p \<Rightarrow> Inl p
      | Inr (err1, st') \<Rightarrow>
          if \<not> readable \<or> err1 \<noteq> ErrNil then Inr (err1, st')
          else walk_names fn path entries st')"
| "walk fn path (Reg sz mt) st = fn path (Reg sz mt) (lstat (Reg sz mt)) False st"
| "walk fn path Special st = fn path Special (lstat Special) False st"
| "walk fn path Vanished st = Inl NilPointer"
| "walk_names fn path [] st = Inr (ErrNil, st)"
| "walk_names fn path ((name, child) # rest) st =
     (case lstat child of
        None \<Rightarrow>
          (case fn (filepath_Join path name) child None True st of
             Inl p \<Rightarrow> Inl p
           | Inr (err, st') \<Rightarrow>
               if err \<noteq> ErrNil \<and> err \<noteq> SkipDir then Inr (err, st')
               else walk_names fn path rest st')
      | Some info \<Rightarrow>
          (case walk fn (filepath_Join path name) child st of
             Inl p \<Rightarrow> Inl p
           | Inr (err, st') \<Rightarrow>
               if err \<noteq> ErrNil \<and> (\<not> IsDir info \<or> err \<noteq> SkipDir) then Inr (err, st')
               else walk_names fn path rest st'))"

definition filepath_Walk :: "walk_fn \<Rightarrow> string \<Rightarrow> node \<Rightarrow> walk_state \<Rightarrow> panic + walk_err \<times> walk_state" where
  "filepath_Walk fn root nd st =
     (case lstat nd of
        None \<Rightarrow> fn root nd None True st
      | Some info \<Rightarrow> walk fn root nd st)"

text \<open>
  The closure \<open>visit\<close> of \<open>walk_dir\<close>. \<open>info.IsDir()\<close> is reached only when the first two
  tests hold, \<open>info.Mode()\<close> whenever the first branch is not taken.
\<close>

definition visit_file :: "conf \<Rightarrow> env \<Rightarrow> string \<Rightarrow> file_info option \<Rightarrow> walk_state \<Rightarrow> panic + walk_err \<times> walk_state" where
  "visit_file c e path info st =
     (case info of
        None \<Rightarrow> Inl NilPointer
      | Some i \<Rightarrow>
          if IsRegular i then
            (let row = \<lparr>filename = TrimPrefix path (New_path c @ ''/''), changed = ModTime i,
                        size_col = Size i, hash_new = None, hash_old = None\<rparr>
             in if stage_fails e row then Inl (DieIf ''stmt.Exec'')
                else Inr (ErrNil, (fst st, snd st @ [row])))
          else Inr (ErrNil, st))"

definition visit :: "conf \<Rightarrow> env \<Rightarrow> string \<Rightarrow> walk_fn" where
  "visit c e dir path nd info err st =
     (if path \<noteq> dir \<and> \<not> err then
        (case info of
           None \<Rightarrow> Inl NilPointer
         | Some i \<Rightarrow>
             if IsDir i then Inr (SkipDir, (fst st @ [(path, nd)], snd st))
             else visit_file c e path info st)
      else visit_file c e path info st)"

definition walk_dir :: "conf \<Rightarrow> env \<Rightarrow> string \<Rightarrow> node \<Rightarrow> walk_state \<Rightarrow> panic + walk_state" where
  "walk_dir c e dir nd st =
     (case filepath_Walk (visit c e dir) dir nd st of
        Inl p \<Rightarrow> Inl p
      | Inr (err, st') \<Rightarrow> Inr st')"

fun weight :: "node \<Rightarrow> nat" where
  "weight (Dir readable entries) = Suc (sum_list (map (\<lambda>x. weight (snd x)) entries))"
| "weight (Reg sz mt) = 1"
| "weight Special = 1"
| "weight Vanished = 1"

definition weights :: "(string \<times> node) list \<Rightarrow> nat" where
  "weights q = sum_list (map (\<lambda>x. weight (snd x)) q)"

lemma visit_enq:
  "visit c e dir path nd info err st = Inr (er, st') \<Longrightarrow>
     (fst st' = fst st \<and> er = ErrNil) \<or> (fst st' = fst st @ [(path, nd)] \<and> er = SkipDir \<and> path \<noteq> dir)"
  by (auto simp: visit_def visit_file_def Let_def split: if_splits option.splits)

lemma visit_err:
  "visit c e dir path nd info True st = Inr (er, st') \<Longrightarrow> fst st' = fst st \<and> er = ErrNil"
  by (auto simp: visit_def visit_file_def Let_def split: if_splits option.splits)

lemma weights_simps [simp]: "weights [] = 0" "weights (x # xs) = weight (snd x) + weights xs"
  "weights (xs @ ys) = weights xs + weights ys"
  by (simp_all add: weights_def)

lemma walk_enq:
  "walk (visit c e dir) path nd st = Inr (er, st') \<Longrightarrow>
      (\<exists>new. fst st' = fst st @ new \<and> weights new \<le> weight nd)"
  "walk_names (visit c e dir) path entries st = Inr (er, st') \<Longrightarrow>
      (\<exists>new. fst st' = fst st @ new \<and> weights new \<le> weights entries)"
proof (induction "visit c e dir" path nd st and "visit c e dir" path entries st
    arbitrary: er st' and er st' rule: walk_walk_names.induct)
  case (1 path readable entries st)
  let ?nd = "Dir readable entries"
  from "1.prems" obtain err1 st1 where
    v: "visit c e dir path ?nd (lstat ?nd) (\<not> readable) st = Inr (err1, st1)"
    by (cases "visit c e dir path ?nd (lstat ?nd) (\<not> readable) st") auto
  from visit_enq [OF v] consider
    (same) "fst st1 = fst st" "err1 = ErrNil"
    | (sent) "fst st1 = fst st @ [(path, ?nd)]" "err1 = SkipDir"
    by blast
  then show ?case
  proof cases
    case same
    show ?thesis
    proof (cases readable)
      case True
      with "1.prems" v same have "walk_names (visit c e dir) path entries st1 = Inr (er, st')"
        by simp
      from "1.hyps" [OF v refl _ this] True same obtain new where
        "fst st' = fst st1 @ new" "weights new \<le> weights entries"
        by auto
      with same show ?thesis by (auto simp: weights_def)
    next
      case False
      with "1.prems" v same have "st' = st1" by simp
      with same show ?thesis by simp
    qed
  next
    case sent
    with "1.prems" v have "st' = st1" by simp
    with sent show ?thesis by (auto simp: weights_def)
  qed
next
  case (2 path sz mt st)
  then show ?case by (auto dest!: visit_enq simp: lstat_def)
next
  case (3 path st)
  then show ?case by (auto dest!: visit_enq simp: lstat_def)
next
  case (4 path st)
  then show ?case by simp
next
  case (5 path st)
  then show ?case by simp
next
  case (6 path name child rest st)
  let ?p = "filepath_Join path name"
  show ?case
  proof (cases "lstat child")
    case None
    with "6.prems" obtain err1 st1 where
      v: "visit c e dir ?p child None True st = Inr (err1, st1)"
      by (cases "visit c e dir ?p child None True st") auto
    from visit_err [OF v] have same: "fst st1 = fst st" by auto
    have "err1 = ErrNil \<or> err1 = SkipDir" by (cases err1) auto
    with "6.prems" None v have "walk_names (visit c e dir) path rest st1 = Inr (er, st')"
      by auto
    from "6.hyps"(1) [OF None v refl _ this] obtain new where
      "fst st' = fst st1 @ new" "weights new \<le> weights rest"
      by (cases err1) auto
    with same show ?thesis by auto
  next
    case (Some info)
    with "6.prems" obtain err1 st1 where
      w: "walk (visit c e dir) ?p child st = Inr (err1, st1)"
      by (cases "walk (visit c e dir) ?p child st") auto
    from "6.hyps"(2) [OF Some w] obtain new1 where
      n1: "fst st1 = fst st @ new1" "weights new1 \<le> weight child"
      by auto
    show ?thesis
    proof (cases "err1 \<noteq> ErrNil \<and> (\<not> IsDir info \<or> err1 \<noteq> SkipDir)")
      case True
      with "6.prems" Some w have "st' = st1" by auto
      with n1 show ?thesis by auto
    next
      case False
      with "6.prems" Some w have "walk_names (visit c e dir) path rest st1 = Inr (er, st')"
        by auto
      from "6.hyps"(3) [OF Some w refl False this] obtain new2 where
        "fst st' = fst st1 @ new2" "weights new2 \<le> weights rest"
        by auto
      with n1 show ?thesis by auto
    qed
  qed
qed

lemma walk_dir_enq:
  assumes "walk_dir c e dir nd st = Inr st'"
  shows "\<exists>new. fst st' = fst st @ new \<and> weights new < weight nd"
proof (cases nd)
  case (Dir readable entries)
  from assms Dir obtain err where
    w: "walk (visit c e dir) dir (Dir readable entries) st = Inr (err, st')"
    by (auto simp: walk_dir_def filepath_Walk_def lstat_def split: sum.splits)
  then obtain err1 st1 where
    v: "visit c e dir dir nd (lstat nd) (\<not> readable) st = Inr (err1, st1)"
    using Dir by (cases "visit c e dir dir nd (lstat nd) (\<not> readable) st") auto
  from visit_enq [OF v] have same: "fst st1 = fst st" "err1 = ErrNil" by auto
  show ?thesis
  proof (cases readable)
    case True
    with w v same Dir have "walk_names (visit c e dir) dir entries st1 = Inr (err, st')"
      by simp
    from walk_enq(2) [OF this] same Dir show ?thesis
      by (auto simp: weights_def)
  next
    case False
    with w v same Dir have "st' = st1" by simp
    with same show ?thesis by (simp add: Dir)
  qed
next
  case (Reg sz mt)
  with assms obtain err where "visit c e dir dir nd (lstat nd) False st = Inr (err, st')"
    by (auto simp: walk_dir_def filepath_Walk_def lstat_def split: sum.splits)
  from visit_enq [OF this] Reg show ?thesis by auto
next
  case Special
  with assms obtain err where "visit c e dir dir nd (lstat nd) False st = Inr (err, st')"
    by (auto simp: walk_dir_def filepath_Walk_def lstat_def split: sum.splits)
  from visit_enq [OF this] Special show ?thesis by auto
next
  case Vanished
  with assms show ?thesis
    by (auto simp: walk_dir_def filepath_Walk_def lstat_def visit_def visit_file_def
        split: sum.splits)
qed

section \<open>The enumeration\<close>

text \<open>
  \<open>spawn_walkers\<close> starts a walker for every directory it receives from \<open>to_walk\<close>,
  and every walker may send more directories. Here the directories are walked one
  after the other, in the order they were sent; the walkers of the program run side by
  side, and the order in which their rows reach the prepared statement is left to the
  environment in \<open>file_walk\<close> below.
\<close>

function spawn_walkers :: "conf \<Rightarrow> env \<Rightarrow> (string \<times> node) list \<Rightarrow> entry list \<Rightarrow> panic + entry list" where
  "spawn_walkers c e [] rows = Inr rows"
| "spawn_walkers c e ((p, nd) # to_walk) rows =
     (case walk_dir c e p nd ([], rows) of
        Inl pn \<Rightarrow> Inl pn
      | Inr (sent, rows') \<Rightarrow> spawn_walkers c e (to_walk @ sent) rows')"
  by pat_completeness auto
termination
proof (relation "measure (\<lambda>(c, e, to_walk, rows). weights to_walk)")
  show "wf (measure (\<lambda>(c, e, to_walk, rows). weights to_walk))" by simp
next
  fix c e p nd to_walk rows x2 sent rows'
  assume "walk_dir c e p nd ([], rows) = Inr x2" "(sent, rows') = x2"
  then have "walk_dir c e p nd ([], rows) = Inr (sent, rows')" by simp
  from walk_dir_enq [OF this] have "weights sent < weight nd" by auto
  then show "((c, e, to_walk @ sent, rows'), c, e, (p, nd) # to_walk, rows)
      \<in> measure (\<lambda>(c, e, to_walk, rows). weights to_walk)"
    by simp
qed


section \<open>The text of the queries\<close>

text \<open>
  \<open>pq.QuoteIdentifier\<close> cuts the name at the first zero byte, doubles every double
  quote and puts the result between double quotes; \<open>pq.CopyIn\<close> quotes the table and
  the columns in this way, and writes the parentheses only when there are columns.
\<close>

definition dquote :: char where
  "dquote = CHR 0x22"

definition nul :: char where
  "nul = CHR 0x00"

definition QuoteIdentifier :: "string \<Rightarrow> string" where
  "QuoteIdentifier name =
     [dquote] @ concat (map (\<lambda>ch. if ch = dquote then [dquote, dquote] else [ch])
                        (takeWhile (\<lambda>ch. ch \<noteq> nul) name)) @ [dquote]"

definition CopyIn :: "string \<Rightarrow> string list \<Rightarrow> string" where
  "CopyIn tbl columns =
     ''COPY '' @ QuoteIdentifier tbl @
       (if columns = [] then []
        else '' ('' @
          concat (map (\<lambda>(i, col). (if i \<noteq> 0 then '', '' else []) @ QuoteIdentifier col)
                      (zip [0..<length columns] columns)) @ '')'') @
       '' FROM STDIN''"

text \<open>
  The five kinds of query of the program. \<open>query_text\<close> is the string that is sent
  (the layout of the \<open>create table\<close> text is put on one line; the select is the text
  before the filter is appended), \<open>table_text\<close> the text that stands where the table
  is named.
\<close>

datatype query_kind = CreateTable | RowCount | BulkInsert | SelectPending side | UpdateHash side

definition col_name :: "side \<Rightarrow> string" where
  "col_name s = (case s of New \<Rightarrow> ''hash_new'' | Old \<Rightarrow> ''hash_old'')"

definition table_text :: "conf \<Rightarrow> query_kind \<Rightarrow> string" where
  "table_text c k =
     (case k of
        CreateTable \<Rightarrow> QuoteIdentifier (Table_name c)
      | RowCount \<Rightarrow> QuoteIdentifier (Table_name c)
      | BulkInsert \<Rightarrow> QuoteIdentifier (Table_name c)
      | SelectPending s \<Rightarrow> Table_name c
      | UpdateHash s \<Rightarrow> Table_name c)"

definition query_text :: "conf \<Rightarrow> query_kind \<Rightarrow> string" where
  "query_text c k =
     (case k of
        CreateTable \<Rightarrow>
          ''create table if not exists '' @ QuoteIdentifier (Table_name c) @
          '' ( filename text, changed timestamp, size bigint, hash_new text, hash_old text )''
      | RowCount \<Rightarrow> ''select count(*) from '' @ QuoteIdentifier (Table_name c)
      | BulkInsert \<Rightarrow> CopyIn (Table_name c) [''filename'', ''size'', ''changed'']
      | SelectPending s \<Rightarrow>
          ''select filename from '' @ Table_name c @ '' where '' @ col_name s @ '' is null''
      | UpdateHash s \<Rightarrow>
          ''update '' @ Table_name c @ '' set '' @ col_name s @ '' = $2 where filename = $1'')"

text \<open>
  The text that a hashing phase gives to \<open>db.Query\<close>: the select, and after it
  \<open>" and " + conf.Where_clause\<close> when the clause is not the empty string.
\<close>

definition pending_query :: "side \<Rightarrow> conf \<Rightarrow> string" where
  "pending_query s c =
     query_text c (SelectPending s) @
       (case Where_clause c of None \<Rightarrow> [] | Some w \<Rightarrow> '' and '' @ cond_text w)"

section \<open>The table that a text names\<close>

text \<open>
  How PostgreSQL reads the text that names a table, for names within its length
  limit. Between double quotes the text is the name, with doubled quotes standing for
  one; the empty name is refused. Without quotes the text must be a letter or an
  underscore followed by letters, digits, underscores and dollar signs, and must not
  be a reserved word; the name is the text in lower case. Any other text does not
  name the table (\<open>None\<close>). The reserved words are a parameter.
\<close>

definition ident_start :: "char \<Rightarrow> bool" where
  "ident_start ch =
     (let n = (of_char ch :: nat)
      in (97 \<le> n \<and> n \<le> 122) \<or> (65 \<le> n \<and> n \<le> 90) \<or> n = 95 \<or> 128 \<le> n)"

definition ident_cont :: "char \<Rightarrow> bool" where
  "ident_cont ch =
     (let n = (of_char ch :: nat) in ident_start ch \<or> (48 \<le> n \<and> n \<le> 57) \<or> n = 36)"

definition is_upper :: "char \<Rightarrow> bool" where
  "is_upper ch = (let n = (of_char ch :: nat) in 65 \<le> n \<and> n \<le> 90)"

definition to_lower :: "char \<Rightarrow> char" where
  "to_lower ch = (if is_upper ch then char_of (of_char ch + (32 :: nat)) else ch)"

definition plain :: "string \<Rightarrow> bool" where
  "plain w = (case w of [] \<Rightarrow> False | ch # rest \<Rightarrow> ident_start ch \<and> list_all ident_cont rest)"

fun unquote :: "string \<Rightarrow> string option" where
  "unquote [] = None"
| "unquote [ch] = (if ch = dquote then Some [] else None)"
| "unquote (ch # ch2 # rest) =
     (if ch = dquote then
        (if ch2 = dquote then map_option (\<lambda>w. dquote # w) (unquote rest) else None)
      else if ch = nul then None
      else map_option (\<lambda>w. ch # w) (unquote (ch2 # rest)))"

definition pg_ident :: "(string \<Rightarrow> bool) \<Rightarrow> string \<Rightarrow> string option" where
  "pg_ident reserved w =
     (case w of
        [] \<Rightarrow> None
      | ch # rest \<Rightarrow>
          if ch = dquote then
            (case unquote rest of None \<Rightarrow> None | Some name \<Rightarrow> if name = [] then None else Some name)
          else if plain w \<and> \<not> reserved (map to_lower w) then Some (map to_lower w)
          else None)"

definition table_ref :: "(string \<Rightarrow> bool) \<Rightarrow> conf \<Rightarrow> query_kind \<Rightarrow> string option" where
  "table_ref reserved c k = pg_ident reserved (table_text c k)"

text \<open>
  A table name needs quoting when it has an upper case letter, is a reserved word, or
  is not made of the characters of a plain identifier.
\<close>

definition needs_quoting :: "(string \<Rightarrow> bool) \<Rightarrow> string \<Rightarrow> bool" where
  "needs_quoting reserved name =
     (list_ex is_upper name \<or> reserved (map to_lower name) \<or> \<not> plain name)"

definition escape :: "string \<Rightarrow> string" where
  "escape w = concat (map (\<lambda>ch. if ch = dquote then [dquote, dquote] else [ch]) w)"

section \<open>The walk in its transaction\<close>

text \<open>How a run ends: \<open>main\<close> returns, a goroutine panics, or no goroutine can go on.\<close>

datatype outcome = Completed | Panicked panic | Deadlocked

text \<open>
  Orders that the program does not decide. The walkers run side by side, so the rows
  of different directories reach the statement in an order that the scheduler decides;
  and a query without \<open>order by\<close> returns its rows in an order that the server
  decides. \<open>shuffle\<close> builds an order from a list of choices: each choice takes one of
  the elements that are left, and when the choices are used up the rest follows as it
  is. (Every order can be chosen, also orders of the staged rows that no schedule of
  the walkers gives.)
\<close>

fun shuffle :: "nat list \<Rightarrow> 'a list \<Rightarrow> 'a list" where
  "shuffle [] xs = xs"
| "shuffle (n # ns) xs =
     (if xs = [] then []
      else xs ! (n mod length xs) #
           shuffle ns (take (n mod length xs) xs @ drop (Suc (n mod length xs)) xs))"

text \<open>
  The database as the enumeration meets it: the table as it is committed, the rows
  that an open transaction has added and not yet committed, and the rows that the
  \<open>COPY\<close> statement has been given and that are not yet part of the table or of the
  transaction. \<open>db_apply\<close> is the effect of a call that returns no error: \<open>CopyRow\<close> is
  \<open>stmt.Exec\<close> with a row, \<open>CopyEnd\<close> the \<open>stmt.Exec\<close> without arguments that ends the
  \<open>COPY\<close>. Outside a transaction a statement is committed when it ends. When the
  process ends, the connection closes and what is not committed is rolled back:
  \<open>db_abort\<close>.
\<close>

record store =
  committed :: ledger
  in_txn :: "entry list option"
  staged :: "entry list"

datatype db_call = Begin | Prepare | CopyRow entry | CopyEnd | CloseStmt | Commit

fun db_apply :: "db_call \<Rightarrow> store \<Rightarrow> store" where
  "db_apply Begin st = st\<lparr>in_txn := Some []\<rparr>"
| "db_apply Prepare st = st\<lparr>staged := []\<rparr>"
| "db_apply (CopyRow r) st = st\<lparr>staged := staged st @ [r]\<rparr>"
| "db_apply CopyEnd st =
     (case in_txn st of
        None \<Rightarrow> st\<lparr>committed := committed st @ staged st, staged := []\<rparr>
      | Some rs \<Rightarrow> st\<lparr>in_txn := Some (rs @ staged st), staged := []\<rparr>)"
| "db_apply CloseStmt st = st"
| "db_apply Commit st =
     (case in_txn st of
        None \<Rightarrow> st
      | Some rs \<Rightarrow> st\<lparr>committed := committed st @ rs, in_txn := None\<rparr>)"

definition db_abort :: "store \<Rightarrow> store" where
  "db_abort st = st\<lparr>in_txn := None, staged := []\<rparr>"

definition db_start :: "ledger \<Rightarrow> store" where
  "db_start db = \<lparr>committed = db, in_txn = None, staged = []\<rparr>"

text \<open>
  The branch of \<open>main\<close> for an empty table, as the calls it makes on the database until
  it is through or a goroutine panics: \<open>db.Begin\<close>, \<open>txn.Prepare\<close> of the \<open>COPY\<close>, one
  \<open>stmt.Exec\<close> with a row for every regular file the walkers find, and after \<open>wg.Wait\<close>
  the \<open>stmt.Exec\<close> without arguments, \<open>stmt.Close\<close> and \<open>txn.Commit\<close>. The result is the
  calls that returned without error and the panic, if any. (When a walker panics, the
  rows that the walkers have given to the statement before are not listed: whatever
  they are, they are never committed.)
\<close>

definition walk_calls :: "conf \<Rightarrow> env \<Rightarrow> db_call list \<times> panic option" where
  "walk_calls c e =
     (if begin_fails e then ([], Some (DieIf ''db.Begin''))
      else if prepare_fails e then ([Begin], Some (DieIf ''txn.Prepare''))
      else
        (case spawn_walkers c e [(New_path c, fs_tree e)] [] of
           Inl p \<Rightarrow> ([Begin, Prepare], Some p)
         | Inr rows \<Rightarrow>
             (let copied = [Begin, Prepare] @ map CopyRow (shuffle (stage_order e) rows)
              in if flush_fails e then (copied, Some (DieIf ''stmt.Exec''))
                 else if close_fails e then (copied @ [CopyEnd], Some (DieIf ''stmt.Close''))
                 else if commit_fails e then
                   (copied @ [CopyEnd, CloseStmt], Some (DieIf ''txn.Commit''))
                 else (copied @ [CopyEnd, CloseStmt, Commit], None))))"

text \<open>
  \<open>file_walk\<close> is that branch on a table \<open>db\<close>: how it ends and the table it leaves.
\<close>

definition file_walk :: "conf \<Rightarrow> env \<Rightarrow> ledger \<Rightarrow> outcome \<times> ledger" where
  "file_walk c e db =
     (let st = fold db_apply (fst (walk_calls c e)) (db_start db)
      in case snd (walk_calls c e) of
           Some p \<Rightarrow> (Panicked p, committed (db_abort st))
         | None \<Rightarrow> (Completed, committed st))"


section \<open>The hashing phases\<close>

text \<open>
  The condition of \<open>select filename from T where hash_new is null\<close>, to which
  \<open>" and " + conf.Where_clause\<close> is appended when the clause is not empty, and the
  filenames of the rows that the condition selects, here in the order of the table.
\<close>

definition pending_cond :: "side \<Rightarrow> conf \<Rightarrow> cond" where
  "pending_cond s c =
     (case Where_clause c of
        None \<Rightarrow> Prim (col_name s @ '' is null'') (\<lambda>r. hash_col s r = None)
      | Some w \<Rightarrow> AndC (col_name s @ '' is null'') (\<lambda>r. hash_col s r = None) w)"

definition select_pending :: "side \<Rightarrow> conf \<Rightarrow> ledger \<Rightarrow> string list" where
  "select_pending s c db = map filename (filter (holds (pending_cond s c)) db)"

text \<open>
  The rows that \<open>res.Next\<close> yields before it returns false: the selected ones in the
  order in which the server returns them, all of them, or the first \<open>k\<close> when the
  result breaks off there. \<open>main\<close> never calls \<open>res.Err\<close>, so it cannot tell the two
  apart.
\<close>

definition query_result :: "side \<Rightarrow> conf \<Rightarrow> env \<Rightarrow> ledger \<Rightarrow> string list" where
  "query_result s c e db =
     (let rows = shuffle (result_order e s) (select_pending s c db)
      in case rows_err e s of
           None \<Rightarrow> rows
         | Some k \<Rightarrow> take k rows)"

text \<open>
  Each hashing phase of \<open>main\<close> sets \<open>hash_threads\<close> to 8, makes the channel \<open>to_hash\<close>
  with that capacity and starts that many workers. No field of \<open>conf\<close> enters.
\<close>

definition hash_threads :: "conf \<Rightarrow> nat" where
  "hash_threads c = 8"

text \<open>
  A worker waits at the channel, holds the filename it has received until its work on
  that file is done, or has returned after finding the channel closed and empty.
\<close>

datatype worker = Waiting | Holding string | Returned

text \<open>
  The state of a phase: the rows of the result that \<open>main\<close> has not scanned yet and how
  many it has scanned, the filename it has scanned and not yet sent, the filenames in
  the channel, whether \<open>main\<close> has left its loop and closed the channel, the workers,
  the table with the log, and the panic that has ended the process, if any.
\<close>

record pool =
  cursor :: "string list"
  scanned :: nat
  in_hand :: "string option"
  to_hash :: "string list"
  closed :: bool
  workers :: "worker list"
  table :: "ledger \<times> string list"
  dead :: "panic option"

definition start_pool :: "conf \<Rightarrow> string list \<Rightarrow> ledger \<times> string list \<Rightarrow> pool" where
  "start_pool c res st =
     \<lparr>cursor = res, scanned = 0, in_hand = None, to_hash = [], closed = False,
      workers = replicate (hash_threads c) Waiting, table = st, dead = None\<rparr>"

text \<open>
  The connections. The result of \<open>db.Query\<close> keeps its connection until \<open>res.Next\<close>
  returns false, that is until \<open>main\<close> leaves its loop. A worker needs a connection for
  \<open>db.Exec\<close>, which it reaches when the file was opened and read; when
  \<open>Db_maxconnections\<close> is 1 the only connection is that of the result, and \<open>db.Exec\<close>
  waits until it is given back. With any other value there is a connection for the
  workers, which they use one after the other.
\<close>

definition needs_conn :: "side \<Rightarrow> conf \<Rightarrow> env \<Rightarrow> string \<Rightarrow> bool" where
  "needs_conn s c e file =
     (case fs_read e (root_path s c @ ''/'' @ file) of
        Contents bs \<Rightarrow> True
      | OpenError err \<Rightarrow> False
      | ReadError err \<Rightarrow> False)"

definition conn_free :: "conf \<Rightarrow> pool \<Rightarrow> bool" where
  "conn_free c p = (Db_maxconnections c \<noteq> 1 \<or> closed p)"

text \<open>
  The steps of a phase. \<open>main\<close>: \<open>Scan\<close> is \<open>res.Next\<close> returning true and \<open>res.Scan\<close>, which
  gives the next filename or an error, on which \<open>die_if\<close> panics; \<open>Send\<close> puts the
  filename into the channel when it has room; \<open>Close\<close> is \<open>res.Next\<close> returning false,
  \<open>res.Close\<close> and \<open>close(to_hash)\<close>. Worker \<open>i\<close>: \<open>Receive\<close> takes the oldest filename from
  the channel; \<open>Finish\<close> is the body of the loop of \<open>hash_new_file\<close> or \<open>hash_old_file\<close> for
  the filename it holds; \<open>Return\<close> leaves the loop when the channel is closed and empty.
  After a panic there is no step.
\<close>

datatype action = Scan | Send | Close | Receive nat | Finish nat | Return nat

fun enabled :: "side \<Rightarrow> conf \<Rightarrow> env \<Rightarrow> pool \<Rightarrow> action \<Rightarrow> bool" where
  "enabled s c e p Scan = (dead p = None \<and> in_hand p = None \<and> cursor p \<noteq> [])"
| "enabled s c e p Send =
     (dead p = None \<and> in_hand p \<noteq> None \<and> length (to_hash p) < hash_threads c)"
| "enabled s c e p Close =
     (dead p = None \<and> in_hand p = None \<and> cursor p = [] \<and> \<not> closed p)"
| "enabled s c e p (Receive i) =
     (dead p = None \<and> i < length (workers p) \<and> workers p ! i = Waiting \<and> to_hash p \<noteq> [])"
| "enabled s c e p (Finish i) =
     (dead p = None \<and> i < length (workers p) \<and>
      (case workers p ! i of
         Holding file \<Rightarrow> \<not> needs_conn s c e file \<or> conn_free c p
       | Waiting \<Rightarrow> False
       | Returned \<Rightarrow> False))"
| "enabled s c e p (Return i) =
     (dead p = None \<and> i < length (workers p) \<and> workers p ! i = Waiting \<and>
      to_hash p = [] \<and> closed p)"

fun fire :: "side \<Rightarrow> conf \<Rightarrow> env \<Rightarrow> pool \<Rightarrow> action \<Rightarrow> pool" where
  "fire s c e p Scan =
     (case cursor p of
        [] \<Rightarrow> p
      | file # rest \<Rightarrow>
          if scan_fails e s = Some (scanned p) then p\<lparr>dead := Some (DieIf ''res.Scan'')\<rparr>
          else p\<lparr>cursor := rest, scanned := Suc (scanned p), in_hand := Some file\<rparr>)"
| "fire s c e p Send =
     (case in_hand p of
        None \<Rightarrow> p
      | Some file \<Rightarrow> p\<lparr>in_hand := None, to_hash := to_hash p @ [file]\<rparr>)"
| "fire s c e p Close = p\<lparr>closed := True\<rparr>"
| "fire s c e p (Receive i) =
     (case to_hash p of
        [] \<Rightarrow> p
      | file # rest \<Rightarrow> p\<lparr>to_hash := rest, workers := (workers p)[i := Holding file]\<rparr>)"
| "fire s c e p (Finish i) =
     (case workers p ! i of
        Holding file \<Rightarrow>
          p\<lparr>workers := (workers p)[i := Waiting], table := hash_one s c e file (table p)\<rparr>
      | Waiting \<Rightarrow> p
      | Returned \<Rightarrow> p)"
| "fire s c e p (Return i) = p\<lparr>workers := (workers p)[i := Returned]\<rparr>"

definition pool_step :: "side \<Rightarrow> conf \<Rightarrow> env \<Rightarrow> pool \<Rightarrow> pool \<Rightarrow> bool" where
  "pool_step s c e p p' = (\<exists>a. enabled s c e p a \<and> p' = fire s c e p a)"

text \<open>\<open>wg.Wait\<close> ends, and with it the phase, when all workers have returned.\<close>

definition pool_done :: "pool \<Rightarrow> bool" where
  "pool_done p =
     (dead p = None \<and> cursor p = [] \<and> in_hand p = None \<and> to_hash p = [] \<and> closed p \<and>
      list_all (\<lambda>w. w = Returned) (workers p))"

text \<open>
  All the steps that a state may allow, the workers' before those of \<open>main\<close>, and a
  measure that every step makes smaller.
\<close>

definition actions :: "pool \<Rightarrow> action list" where
  "actions p =
     map Finish [0..<length (workers p)] @ map Receive [0..<length (workers p)] @
     [Scan, Send, Close] @ map Return [0..<length (workers p)]"

definition worker_weight :: "worker \<Rightarrow> nat" where
  "worker_weight w = (case w of Holding f \<Rightarrow> 2 | Waiting \<Rightarrow> 1 | Returned \<Rightarrow> 0)"

definition pool_measure :: "pool \<Rightarrow> nat" where
  "pool_measure p =
     (if dead p = None then 1 else 0) + 5 * length (cursor p) +
     (if in_hand p = None then 0 else 4) + 3 * length (to_hash p) +
     sum_list (map worker_weight (workers p)) + (if closed p then 0 else 1)"

lemma weight_update:
  "i < length ws \<Longrightarrow>
     sum_list (map worker_weight (ws[i := w])) + worker_weight (ws ! i) =
     sum_list (map worker_weight ws) + worker_weight w"
proof (induction ws arbitrary: i)
  case Nil
  then show ?case by simp
next
  case (Cons a ws)
  then show ?case by (cases i) (simp_all add: add.assoc add.left_commute)
qed

lemma pool_measure_fire:
  assumes "enabled s c e p a"
  shows "pool_measure (fire s c e p a) < pool_measure p"
proof (cases a)
  case Scan
  with assms show ?thesis by (cases "cursor p") (simp_all add: pool_measure_def)
next
  case Send
  with assms show ?thesis by (cases "in_hand p") (simp_all add: pool_measure_def)
next
  case Close
  with assms show ?thesis by (simp add: pool_measure_def)
next
  case (Receive i)
  with assms obtain f fs where th: "to_hash p = f # fs" by (cases "to_hash p") auto
  with Receive assms weight_update [of i "workers p" "Holding f"] show ?thesis
    by (simp add: pool_measure_def worker_weight_def)
next
  case (Finish i)
  with assms weight_update [of i "workers p" Waiting] show ?thesis
    by (cases "workers p ! i") (simp_all add: pool_measure_def worker_weight_def)
next
  case (Return i)
  with assms weight_update [of i "workers p" Returned] show ?thesis
    by (simp add: pool_measure_def worker_weight_def)
qed

text \<open>
  A run of a phase under a schedule: as long as some step is allowed, the next choice
  of the schedule picks one of the allowed steps (the first one when the schedule is
  used up). The run ends in a state that allows no step.
\<close>

definition pick :: "nat list \<Rightarrow> 'a list \<Rightarrow> 'a" where
  "pick sched xs = xs ! ((case sched of [] \<Rightarrow> 0 | n # ns \<Rightarrow> n) mod length xs)"

lemma pick_in: "xs \<noteq> [] \<Longrightarrow> pick sched xs \<in> set xs"
  by (simp add: pick_def)

function run_pool :: "side \<Rightarrow> conf \<Rightarrow> env \<Rightarrow> nat list \<Rightarrow> pool \<Rightarrow> pool" where
  "run_pool s c e sched p =
     (case filter (enabled s c e p) (actions p) of
        [] \<Rightarrow> p
      | a # as \<Rightarrow> run_pool s c e (tl sched) (fire s c e p (pick sched (a # as))))"
  by pat_completeness auto
termination
proof (relation "measure (\<lambda>(s, c, e, sched, p). pool_measure p)")
  show "wf (measure (\<lambda>(s, c, e, sched, p). pool_measure p))" by simp
next
  fix s c e sched p a as
  assume f: "filter (enabled s c e p) (actions p) = a # as"
  have "pick sched (a # as) \<in> set (a # as)" by (rule pick_in) simp
  with f have "pick sched (a # as) \<in> set (filter (enabled s c e p) (actions p))" by simp
  then have "enabled s c e p (pick sched (a # as))" by simp
  from pool_measure_fire [OF this]
  show "((s, c, e, tl sched, fire s c e p (pick sched (a # as))), s, c, e, sched, p)
      \<in> measure (\<lambda>(s, c, e, sched, p). pool_measure p)"
    by simp
qed

declare run_pool.simps [simp del]

text \<open>
  One hashing phase of \<open>main\<close>: \<open>db.Query\<close>, on whose error \<open>die_if\<close> panics, then the
  workers and the loop over the result, run side by side. The phase ends when
  \<open>wg.Wait\<close> returns, or with the panic on a failing \<open>res.Scan\<close>, or it does not end:
  \<open>main\<close> waits to send and every worker waits for a connection.
\<close>

definition pool_outcome :: "pool \<Rightarrow> outcome" where
  "pool_outcome p =
     (case dead p of
        Some pn \<Rightarrow> Panicked pn
      | None \<Rightarrow> if pool_done p then Completed else Deadlocked)"

definition hash_phase :: "side \<Rightarrow> conf \<Rightarrow> env \<Rightarrow> ledger \<times> string list \<Rightarrow> outcome \<times> ledger \<times> string list" where
  "hash_phase s c e st =
     (if query_fails e s then (Panicked (DieIf ''db.Query''), st)
      else
        (let p = run_pool s c e (schedule e s) (start_pool c (query_result s c e (fst st)) st)
         in (pool_outcome p, table p)))"


text \<open>
  The two phases, the second when the first has completed.
\<close>

definition hash_phases :: "conf \<Rightarrow> env \<Rightarrow> ledger \<times> string list \<Rightarrow> outcome \<times> ledger \<times> string list" where
  "hash_phases c e st =
     (case hash_phase New c e st of
        (Completed, st1) \<Rightarrow> hash_phase Old c e st1
      | (Panicked p, st1) \<Rightarrow> (Panicked p, st1)
      | (Deadlocked, st1) \<Rightarrow> (Deadlocked, st1))"

text \<open>
  \<open>main\<close> after the configuration is loaded and the connection is open. The argument
  is the ledger as the run finds it: the table that the quoted table name names, with
  no rows when it is created now. The result is how the run ends, the ledger it
  leaves, and the lines the workers logged.

  The \<open>create table\<close>, the row count and the \<open>COPY\<close> name the table with the quoted
  name, which the server refuses when it is empty. The select and the updates of the
  hashing phases carry the name as it is: when that text names the same table they
  work on the ledger, otherwise on the other table that the text names, or
  \<open>db.Query\<close> returns an error when the statement is refused.
\<close>

definition main :: "conf \<Rightarrow> env \<Rightarrow> ledger \<Rightarrow> outcome \<times> ledger \<times> string list" where
  "main c e db =
     (if create_fails e \<or> table_ref (reserved_words e) c CreateTable = None then
        (Panicked (DieIf ''db.Exec''), db, [])
      else if count_fails e then (Panicked (DieIf ''db.QueryRow''), db, [])
      else
        (case (if length db = 0 then file_walk c e db else (Completed, db)) of
           (Completed, db1) \<Rightarrow>
             if table_ref (reserved_words e) c (SelectPending New) = table_ref (reserved_words e) c CreateTable
             then hash_phases c e (db1, [])
             else
               (case other_table e of
                  None \<Rightarrow> (Panicked (DieIf ''db.Query''), db1, [])
                | Some t \<Rightarrow>
                    (fst (hash_phases c e (t, [])), db1, snd (snd (hash_phases c e (t, [])))))
         | (Panicked p, db1) \<Rightarrow> (Panicked p, db1, [])
         | (Deadlocked, db1) \<Rightarrow> (Deadlocked, db1, [])))"


section \<open>Notions of the specification\<close>

text \<open>
  The digest of a file on one side, computed apart from the workers: the lowercase
  hexadecimal SHA-256 of all the bytes of the file at the root of that side joined with
  the filename, when the file can be opened and read to its end.
\<close>

definition digest_of :: "side \<Rightarrow> conf \<Rightarrow> env \<Rightarrow> string \<Rightarrow> string option" where
  "digest_of s c e f =
     (case fs_read e (root_path s c @ ''/'' @ f) of
        Contents bs \<Rightarrow> Some (sprintf_x (sha256 e bs))
      | _ \<Rightarrow> None)"

text \<open>Hash correctness of a table for one side.\<close>

definition hash_correct :: "side \<Rightarrow> conf \<Rightarrow> env \<Rightarrow> ledger \<Rightarrow> bool" where
  "hash_correct s c e db =
     list_all (\<lambda>r. case hash_col s r of None \<Rightarrow> True
                   | Some h \<Rightarrow> digest_of s c e (filename r) = Some h) db"

text \<open>
  A filename fails on one side when the file cannot be opened, cannot be read to its
  end, or the update of its row returns an error.
\<close>

definition fails :: "side \<Rightarrow> conf \<Rightarrow> env \<Rightarrow> string \<Rightarrow> bool" where
  "fails s c e f =
     (case fs_read e (root_path s c @ ''/'' @ f) of
        OpenError err \<Rightarrow> True
      | ReadError err \<Rightarrow> True
      | Contents bs \<Rightarrow> update_fails e s f \<noteq> None)"

text \<open>What a worker stores for a filename: its digest, unless the update fails.\<close>

definition stored :: "side \<Rightarrow> conf \<Rightarrow> env \<Rightarrow> string \<Rightarrow> string option" where
  "stored s c e f = (case update_fails e s f of None \<Rightarrow> digest_of s c e f | Some err \<Rightarrow> None)"

text \<open>A row after the workers of one side have gone through the filenames \<open>fs\<close>.\<close>

definition written :: "side \<Rightarrow> conf \<Rightarrow> env \<Rightarrow> string list \<Rightarrow> entry \<Rightarrow> entry" where
  "written s c e fs r =
     (if filename r \<in> set fs then
        (case stored s c e (filename r) of None \<Rightarrow> r | Some h \<Rightarrow> set_col s h r)
      else r)"

text \<open>A row as the walk stages it: both hashes null.\<close>

definition fresh :: "entry \<Rightarrow> bool" where
  "fresh r = (hash_new r = None \<and> hash_old r = None)"

text \<open>
  A filter clause without an \<open>or\<close> outside parentheses; \<open>filter_ok\<close> also admits the
  empty clause. \<open>passes\<close> is the filter as a predicate on rows.
\<close>

fun or_free :: "cond \<Rightarrow> bool" where
  "or_free (Prim t p) = True"
| "or_free (AndC t p w) = or_free w"
| "or_free (OrC t p w) = False"

definition filter_ok :: "conf \<Rightarrow> bool" where
  "filter_ok c = (case Where_clause c of None \<Rightarrow> True | Some w \<Rightarrow> or_free w)"

definition passes :: "conf \<Rightarrow> entry \<Rightarrow> bool" where
  "passes c r = (case Where_clause c of None \<Rightarrow> True | Some w \<Rightarrow> holds w r)"

text \<open>
  What holds in every state of a phase. The pool keeps its size, the channel stays
  within its capacity, \<open>main\<close> closes the channel only after the last filename is sent,
  and a worker returns only from the closed and empty channel. The only panic is that
  of a failing \<open>res.Scan\<close>. And the table with the log is what the loop of one worker
  leaves that goes through the filenames \<open>dn\<close> done so far, in the order in which they
  were done; every filename of the result is done, held by a worker, in the channel,
  in the hand of \<open>main\<close> or not yet scanned, as often as it is in the result.
\<close>

definition holding :: "worker \<Rightarrow> string list" where
  "holding w = (case w of Holding f \<Rightarrow> [f] | Waiting \<Rightarrow> [] | Returned \<Rightarrow> [])"

definition held :: "worker list \<Rightarrow> string list" where
  "held ws = concat (map holding ws)"

definition pool_shape :: "conf \<Rightarrow> pool \<Rightarrow> bool" where
  "pool_shape c p =
     (length (workers p) = hash_threads c \<and> length (to_hash p) \<le> hash_threads c \<and>
      (closed p \<longrightarrow> cursor p = [] \<and> in_hand p = None) \<and>
      (Returned \<in> set (workers p) \<longrightarrow> closed p \<and> to_hash p = []))"

definition pool_alive :: "side \<Rightarrow> env \<Rightarrow> pool \<Rightarrow> bool" where
  "pool_alive s e p =
     (dead p = None \<or> (dead p = Some (DieIf ''res.Scan'') \<and> scan_fails e s \<noteq> None))"

definition pool_work ::
  "side \<Rightarrow> conf \<Rightarrow> env \<Rightarrow> string list \<Rightarrow> ledger \<times> string list \<Rightarrow> pool \<Rightarrow> string list \<Rightarrow> bool" where
  "pool_work s c e res st p dn =
     (table p = hash_file s c e dn st \<and>
      mset dn + mset (held (workers p)) + mset (to_hash p) +
        mset (case in_hand p of None \<Rightarrow> [] | Some f \<Rightarrow> [f]) + mset (cursor p) = mset res)"

definition pool_inv :: "side \<Rightarrow> conf \<Rightarrow> env \<Rightarrow> string list \<Rightarrow> ledger \<times> string list \<Rightarrow> pool \<Rightarrow> bool" where
  "pool_inv s c e res st p =
     (pool_shape c p \<and> pool_alive s e p \<and> (\<exists>dn. pool_work s c e res st p dn))"

text \<open>The line that a worker logs for a filename, if it logs one.\<close>

definition item_line :: "side \<Rightarrow> conf \<Rightarrow> env \<Rightarrow> string \<Rightarrow> string list" where
  "item_line s c e f = snd (hash_one s c e f ([], []))"

text \<open>
  A state of a phase in which no digest has been stored and none can be: \<open>main\<close> is
  still in its loop, so the result holds its connection.
\<close>

definition waiting_for_conn ::
  "side \<Rightarrow> conf \<Rightarrow> env \<Rightarrow> string list \<Rightarrow> ledger \<times> string list \<Rightarrow> pool \<Rightarrow> bool" where
  "waiting_for_conn s c e res st p =
     (pool_shape c p \<and> \<not> closed p \<and> dead p = None \<and> pool_work s c e res st p [])"


text \<open>
  A name as a directory lists it, and a root path that \<open>filepath.Clean\<close> leaves as it
  is: elements that are names, separated by single slashes, with or without a slash in
  front.
\<close>

definition valid_name :: "string \<Rightarrow> bool" where
  "valid_name n = (n \<noteq> [] \<and> CHR ''/'' \<notin> set n \<and> n \<noteq> ''.'' \<and> n \<noteq> ''..'')"

definition clean_root :: "string \<Rightarrow> bool" where
  "clean_root p =
     (case split_slash p of
        [] \<Rightarrow> False
      | w # ws \<Rightarrow> if w = [] then ws \<noteq> [] \<and> list_all valid_name ws
                   else list_all valid_name (w # ws))"

fun valid_tree :: "node \<Rightarrow> bool" where
  "valid_tree (Dir readable es) = list_all (\<lambda>x. valid_name (fst x) \<and> valid_tree (snd x)) es"
| "valid_tree (Reg sz mt) = True"
| "valid_tree Special = True"
| "valid_tree Vanished = True"

text \<open>
  The regular files that can be reached under a path, each with its path, size and
  modification time; and the row the specification asks for it: the path with the
  destination root and the slash after it taken off, both hashes null.
\<close>

fun files_under :: "string \<Rightarrow> node \<Rightarrow> (string \<times> int \<times> int) list" where
  "files_under p (Reg sz mt) = [(p, sz, mt)]"
| "files_under p (Dir readable es) =
     (if readable then concat (map (\<lambda>x. files_under (p @ ''/'' @ fst x) (snd x)) es) else [])"
| "files_under p Special = []"
| "files_under p Vanished = []"

definition row_of :: "conf \<Rightarrow> string \<times> int \<times> int \<Rightarrow> entry" where
  "row_of c x =
     (case x of (p, sz, mt) \<Rightarrow>
        \<lparr>filename = drop (length (New_path c) + 1) p, changed = mt, size_col = sz,
         hash_new = None, hash_old = None\<rparr>)"

definition expected_rows :: "conf \<Rightarrow> (string \<times> node) list \<Rightarrow> entry list" where
  "expected_rows c q = concat (map (\<lambda>x. map (row_of c) (files_under (fst x) (snd x))) q)"

text \<open>
  A directory that a walker may be given: a clean path that is the root or lies
  below it, naming a directory whose tree has valid names.
\<close>

definition below :: "conf \<Rightarrow> string \<Rightarrow> bool" where
  "below c p = (clean_root p \<and> (p = New_path c \<or> has_prefix p (New_path c @ ''/'')))"

definition walkable :: "conf \<Rightarrow> string \<times> node \<Rightarrow> bool" where
  "walkable c x = (below c (fst x) \<and> valid_tree (snd x) \<and> IsDir (the (lstat (snd x))) \<and> lstat (snd x) \<noteq> None)"

section \<open>Example inputs\<close>

text \<open>
  A destination tree with \<open>a.txt\<close> (the four bytes \<open>abcd\<close>) and the empty \<open>sub/b.txt\<close>,
  a source tree where \<open>sub/b.txt\<close> cannot be read, a database that never fails and
  returns rows in the order of the table, a scheduler that always takes the first step
  that is allowed, and a stand-in for the digest function.
\<close>

definition toy_digest :: "byte list \<Rightarrow> byte list" where
  "toy_digest bs = [of_nat (length bs), 0xAB]"

definition ex_read :: "string \<Rightarrow> file_read" where
  "ex_read p =
     (if p = ''/new/a.txt'' then Contents [0x61, 0x62, 0x63, 0x64]
      else if p = ''/new/sub/b.txt'' then Contents []
      else if p = ''/old/a.txt'' then Contents [0x61, 0x62, 0x63, 0x64]
      else if p = ''/old/sub/b.txt'' then ReadError ''input/output error''
      else OpenError ''no such file or directory'')"

definition ex_tree :: node where
  "ex_tree = Dir True [(''a.txt'', Reg 4 100), (''sub'', Dir True [(''b.txt'', Reg 0 200)])]"

text \<open>
  Some reserved words of PostgreSQL.
\<close>

definition ex_reserved :: "string \<Rightarrow> bool" where
  "ex_reserved w = (w \<in> set [''select'', ''table'', ''user'', ''order'', ''group'', ''where''])"

definition ex_env :: env where
  "ex_env = \<lparr>fs_tree = ex_tree, fs_read = ex_read, sha256 = toy_digest,
     create_fails = False, count_fails = False, begin_fails = False, prepare_fails = False,
     stage_fails = (\<lambda>r. False), flush_fails = False, close_fails = False, commit_fails = False,
     query_fails = (\<lambda>s. False), result_order = (\<lambda>s. []), rows_err = (\<lambda>s. None),
     scan_fails = (\<lambda>s. None),
     update_fails = (\<lambda>s f. None), schedule = (\<lambda>s. []), stage_order = [],
     reserved_words = ex_reserved, other_table = None\<rparr>"

definition ex_conf :: conf where
  "ex_conf = \<lparr>New_path = ''/new'', Old_path = ''/old'', Db_connstr = ''dbname=check'',
     Table_name = ''files'', Where_clause = None, Db_maxconnections = 10, Db_idleconnections = 2\<rparr>"

text \<open>The table after a first run in which only \<open>a.txt\<close> was hashed on the new side.\<close>

definition ex_ledger :: ledger where
  "ex_ledger =
     [\<lparr>filename = ''a.txt'', changed = 100, size_col = 4, hash_new = Some ''04ab'', hash_old = None\<rparr>,
      \<lparr>filename = ''sub/b.txt'', changed = 200, size_col = 0, hash_new = None, hash_old = None\<rparr>]"

text \<open>The filter \<open>filename like 'sub/%'\<close>.\<close>

definition under_sub :: "entry \<Rightarrow> bool" where
  "under_sub r = has_prefix (filename r) ''sub/''"

definition ex_sub_conf :: conf where
  "ex_sub_conf =
     ex_conf\<lparr>Where_clause :=
       Some (Prim (''filename like '' @ [CHR 0x27] @ ''sub/%'' @ [CHR 0x27]) under_sub)\<rparr>"

text \<open>The filter \<open>size > 100 or size < 10\<close>.\<close>

definition size_over :: "int \<Rightarrow> entry \<Rightarrow> bool" where
  "size_over n r = (n < size_col r)"

definition size_under :: "int \<Rightarrow> entry \<Rightarrow> bool" where
  "size_under n r = (size_col r < n)"

definition ex_or_conf :: conf where
  "ex_or_conf =
     ex_conf\<lparr>Where_clause :=
       Some (OrC ''size > 100'' (size_over 100) (Prim ''size < 10'' (size_under 10)))\<rparr>"

text \<open>A table whose one row carries a digest from an earlier state of the file.\<close>

definition ex_stale :: ledger where
  "ex_stale =
     [\<lparr>filename = ''a.txt'', changed = 100, size_col = 4, hash_new = Some ''07ab'', hash_old = None\<rparr>]"

text \<open>
  A tree with a directory that cannot be listed, and one with a name for which \<open>Lstat\<close>
  fails.
\<close>

definition ex_locked_tree :: node where
  "ex_locked_tree =
     Dir True [(''a.txt'', Reg 4 100), (''locked'', Dir False [(''c.txt'', Reg 7 300)])]"

definition ex_gone_tree :: node where
  "ex_gone_tree = Dir True [(''a.txt'', Reg 4 100), (''gone'', Vanished)]"

text \<open>The SHA-256 digest of the empty file.\<close>

definition sha256_of_empty :: "byte list" where
  "sha256_of_empty =
     [0xe3, 0xb0, 0xc4, 0x42, 0x98, 0xfc, 0x1c, 0x14, 0x9a, 0xfb, 0xf4, 0xc8, 0x99, 0x6f, 0xb9, 0x24,
      0x27, 0xae, 0x41, 0xe4, 0x64, 0x9b, 0x93, 0x4c, 0xa4, 0x95, 0x99, 0x1b, 0x78, 0x52, 0xb8, 0x55]"

text \<open>
  Seventeen pending rows, and a file system in which every file can be read and is
  empty.
\<close>

definition ex_names :: "string list" where
  "ex_names =
     [''f01'', ''f02'', ''f03'', ''f04'', ''f05'', ''f06'', ''f07'', ''f08'', ''f09'',
      ''f10'', ''f11'', ''f12'', ''f13'', ''f14'', ''f15'', ''f16'', ''f17'']"

definition ex_pending :: ledger where
  "ex_pending =
     map (\<lambda>f. \<lparr>filename = f, changed = 0, size_col = 0, hash_new = None, hash_old = None\<rparr>)
       ex_names"

definition ex_readable :: env where
  "ex_readable = ex_env\<lparr>fs_read := (\<lambda>p. Contents [])\<rparr>"

text \<open>A file system in which no file can be opened.\<close>

definition ex_denied :: env where
  "ex_denied = ex_env\<lparr>fs_read := (\<lambda>p. OpenError ''permission denied'')\<rparr>"

section \<open>Lemmas\<close>

subsection \<open>The hashing phases\<close>

lemma filename_set_col [simp]: "filename (set_col s h r) = filename r"
  by (cases s) (simp_all add: set_col_def)

lemma set_col_idem [simp]: "set_col s h (set_col s h r) = set_col s h r"
  by (cases s) (simp_all add: set_col_def)

lemma written_none: "stored s c e f = None \<Longrightarrow> map (written s c e [f]) db = db"
  by (rule map_idI) (simp add: written_def)

lemma written_some:
  "stored s c e f = Some h \<Longrightarrow> map (written s c e [f]) db = update_hash s f h db"
  by (simp add: written_def update_hash_def)

lemma hash_one_ledger:
  "fst (hash_one s c e f st) = map (written s c e [f]) (fst st)"
proof (cases "stored s c e f")
  case None
  then have "fst (hash_one s c e f st) = fst st"
    by (auto simp: hash_one_def stored_def digest_of_def split: file_read.splits option.splits)
  with None show ?thesis by (simp add: written_none)
next
  case (Some h)
  then have "fst (hash_one s c e f st) = update_hash s f h (fst st)"
    by (auto simp: hash_one_def stored_def digest_of_def split: file_read.splits option.splits)
  with Some show ?thesis by (simp add: written_some)
qed

lemma written_Cons: "written s c e fs (written s c e [f] r) = written s c e (f # fs) r"
  by (auto simp: written_def split: option.splits)

lemma hash_file_ledger:
  "fst (hash_file s c e fs st) = map (written s c e fs) (fst st)"
proof (induction fs arbitrary: st)
  case Nil
  show ?case by (simp add: written_def)
next
  case (Cons f fs)
  show ?case by (simp add: Cons.IH hash_one_ledger written_Cons)
qed

lemma hash_file_filenames: "map filename (fst (hash_file s c e fs st)) = map filename (fst st)"
  by (simp add: hash_file_ledger written_def split: option.splits)

lemma visit_rows:
  "visit c e dir path nd info err st = Inr (er, st') \<Longrightarrow>
     \<exists>new. snd st' = snd st @ new \<and> list_all fresh new"
  by (auto simp: visit_def visit_file_def Let_def fresh_def split: if_splits option.splits)

lemma walk_rows:
  "walk (visit c e dir) path nd st = Inr (er, st') \<Longrightarrow>
      \<exists>new. snd st' = snd st @ new \<and> list_all fresh new"
  "walk_names (visit c e dir) path entries st = Inr (er, st') \<Longrightarrow>
      \<exists>new. snd st' = snd st @ new \<and> list_all fresh new"
proof (induction "visit c e dir" path nd st and "visit c e dir" path entries st
    arbitrary: er st' and er st' rule: walk_walk_names.induct)
  case (1 path readable entries st)
  let ?nd = "Dir readable entries"
  from "1.prems" obtain err1 st1 where
    v: "visit c e dir path ?nd (lstat ?nd) (\<not> readable) st = Inr (err1, st1)"
    by (cases "visit c e dir path ?nd (lstat ?nd) (\<not> readable) st") auto
  from visit_rows [OF v] obtain new1 where
    n1: "snd st1 = snd st @ new1" "list_all fresh new1" by blast
  show ?case
  proof (cases "\<not> readable \<or> err1 \<noteq> ErrNil")
    case True
    with "1.prems" v have "st' = st1" by auto
    with n1 show ?thesis by auto
  next
    case False
    with "1.prems" v have "walk_names (visit c e dir) path entries st1 = Inr (er, st')"
      by auto
    from "1.hyps" [OF v refl False this] obtain new2 where
      "snd st' = snd st1 @ new2" "list_all fresh new2" by blast
    with n1 show ?thesis by auto
  qed
next
  case (2 path sz mt st)
  then show ?case by (auto dest!: visit_rows)
next
  case (3 path st)
  then show ?case by (auto dest!: visit_rows)
next
  case (4 path st)
  then show ?case by simp
next
  case (5 path st)
  then show ?case by simp
next
  case (6 path name child rest st)
  let ?p = "filepath_Join path name"
  show ?case
  proof (cases "lstat child")
    case None
    with "6.prems" obtain err1 st1 where
      v: "visit c e dir ?p child None True st = Inr (err1, st1)"
      by (cases "visit c e dir ?p child None True st") auto
    from visit_rows [OF v] obtain new1 where
      n1: "snd st1 = snd st @ new1" "list_all fresh new1" by blast
    have "err1 = ErrNil \<or> err1 = SkipDir" by (cases err1) auto
    with "6.prems" None v have "walk_names (visit c e dir) path rest st1 = Inr (er, st')"
      by auto
    from "6.hyps"(1) [OF None v refl _ this] obtain new2 where
      "snd st' = snd st1 @ new2" "list_all fresh new2"
      by (cases err1) auto
    with n1 show ?thesis by auto
  next
    case (Some info)
    with "6.prems" obtain err1 st1 where
      w: "walk (visit c e dir) ?p child st = Inr (err1, st1)"
      by (cases "walk (visit c e dir) ?p child st") auto
    from "6.hyps"(2) [OF Some w] obtain new1 where
      n1: "snd st1 = snd st @ new1" "list_all fresh new1"
      by auto
    show ?thesis
    proof (cases "err1 \<noteq> ErrNil \<and> (\<not> IsDir info \<or> err1 \<noteq> SkipDir)")
      case True
      with "6.prems" Some w have "st' = st1" by auto
      with n1 show ?thesis by auto
    next
      case False
      with "6.prems" Some w have "walk_names (visit c e dir) path rest st1 = Inr (er, st')"
        by auto
      from "6.hyps"(3) [OF Some w refl False this] obtain new2 where
        "snd st' = snd st1 @ new2" "list_all fresh new2"
        by auto
      with n1 show ?thesis by auto
    qed
  qed
qed

lemma walk_dir_rows:
  assumes "walk_dir c e dir nd st = Inr st'"
  shows "\<exists>new. snd st' = snd st @ new \<and> list_all fresh new"
proof (cases "lstat nd")
  case None
  with assms obtain er where "visit c e dir dir nd None True st = Inr (er, st')"
    by (auto simp: walk_dir_def filepath_Walk_def split: sum.splits)
  from visit_rows [OF this] show ?thesis .
next
  case (Some info)
  with assms obtain er where "walk (visit c e dir) dir nd st = Inr (er, st')"
    by (auto simp: walk_dir_def filepath_Walk_def split: sum.splits)
  from walk_rows(1) [OF this] show ?thesis .
qed

lemma spawn_walkers_rows:
  "spawn_walkers c e to_walk rows = Inr rows' \<Longrightarrow>
     \<exists>new. rows' = rows @ new \<and> list_all fresh new"
proof (induction c e to_walk rows rule: spawn_walkers.induct)
  case (1 c e rows)
  then show ?case by simp
next
  case (2 c e p nd to_walk rows)
  from "2.prems" obtain sent rows1 where
    w: "walk_dir c e p nd ([], rows) = Inr (sent, rows1)"
    by (cases "walk_dir c e p nd ([], rows)") auto
  with "2.prems" have "spawn_walkers c e (to_walk @ sent) rows1 = Inr rows'" by simp
  from "2.IH" [OF w refl this] obtain new2 where
    n2: "rows' = rows1 @ new2" "list_all fresh new2" by blast
  from walk_dir_rows [OF w] obtain new1 where
    "rows1 = rows @ new1" "list_all fresh new1" by auto
  with n2 show ?case by auto
qed

lemma hash_correct_append [simp]:
  "hash_correct s c e (xs @ ys) = (hash_correct s c e xs \<and> hash_correct s c e ys)"
  by (simp add: hash_correct_def)

lemma hash_correct_fresh: "list_all fresh rows \<Longrightarrow> hash_correct s c e rows"
  by (cases s) (auto simp: hash_correct_def fresh_def hash_col_def list_all_iff)

lemma hash_col_set_col:
  "hash_col s' (set_col s h r) = (if s' = s then Some h else hash_col s' r)"
  by (cases s; cases s') (simp_all add: hash_col_def set_col_def)

lemma hash_correct_written:
  "hash_correct s' c e db \<Longrightarrow> hash_correct s' c e (map (written s c e fs) db)"
  by (auto simp: hash_correct_def list_all_iff written_def hash_col_set_col stored_def
      split: option.splits if_splits)

lemma or_free_disjuncts: "or_free w \<Longrightarrow> \<exists>g. disjuncts w = [g]"
  by (induction w) auto

lemma holds_AndC_or_free: "or_free w \<Longrightarrow> holds (AndC t p w) r = (p r \<and> holds w r)"
  by (auto simp: holds_def dest!: or_free_disjuncts)

lemma holds_pending:
  "filter_ok c \<Longrightarrow> holds (pending_cond s c) r = (hash_col s r = None \<and> passes c r)"
proof (cases "Where_clause c")
  case None
  then show ?thesis by (simp add: pending_cond_def passes_def holds_def)
next
  case (Some w)
  assume "filter_ok c"
  with Some have "or_free w" by (simp add: filter_ok_def)
  with Some show ?thesis by (simp add: pending_cond_def passes_def holds_AndC_or_free)
qed

lemma select_pending_eq:
  "filter_ok c \<Longrightarrow>
     select_pending s c db = map filename (filter (\<lambda>r. hash_col s r = None \<and> passes c r) db)"
proof -
  assume "filter_ok c"
  then have "holds (pending_cond s c) = (\<lambda>r. hash_col s r = None \<and> passes c r)"
    by (rule_tac ext) (simp add: holds_pending)
  then show ?thesis by (simp add: select_pending_def)
qed

lemma stored_fails: "fails s c e f \<Longrightarrow> stored s c e f = None"
  by (auto simp: fails_def stored_def digest_of_def split: file_read.splits option.splits)

lemma fails_stored: "stored s c e f = None \<Longrightarrow> fails s c e f"
  by (auto simp: fails_def stored_def digest_of_def split: file_read.splits option.splits)

lemma holds_written:
  "filter_ok c \<Longrightarrow>
     holds (pending_cond s c) (written s c e fs r) =
       (holds (pending_cond s c) r \<and> \<not> (filename r \<in> set fs \<and> stored s c e (filename r) \<noteq> None))"
  by (auto simp: holds_pending written_def hash_col_set_col split: option.splits)

lemma filename_written [simp]: "filename (written s c e fs r) = filename r"
  by (simp add: written_def split: option.splits)

lemma select_after:
  assumes "filter_ok c"
  shows "select_pending s c (fst (hash_file s c e fs (db, lg))) =
           filter (\<lambda>f. \<not> (f \<in> set fs \<and> stored s c e f \<noteq> None)) (select_pending s c db)"
proof -
  have "select_pending s c (map (written s c e fs) db) =
          filter (\<lambda>f. \<not> (f \<in> set fs \<and> stored s c e f \<noteq> None)) (select_pending s c db)"
    by (induction db) (simp_all add: select_pending_def holds_written [OF assms])
  then show ?thesis by (simp add: hash_file_ledger)
qed

lemma untouched:
  assumes "filter_ok c" and "distinct (map filename db)" and "set fs \<subseteq> set (select_pending s c db)"
    and "i < length db" and "hash_col s (db ! i) \<noteq> None"
  shows "fst (hash_file s c e fs (db, lg)) ! i = db ! i"
proof -
  have "filename (db ! i) \<notin> set fs"
  proof
    assume "filename (db ! i) \<in> set fs"
    with assms(3) have "filename (db ! i) \<in> set (select_pending s c db)" by blast
    then obtain r where r: "r \<in> set db" "hash_col s r = None" "filename r = filename (db ! i)"
      by (auto simp: select_pending_eq [OF assms(1)])
    then obtain j where j: "j < length db" "db ! j = r" by (auto simp: in_set_conv_nth)
    with r assms(2,4) have "j = i"
      by (auto simp: distinct_conv_nth)
    with j r assms(5) show False by simp
  qed
  with assms(4) show ?thesis by (simp add: hash_file_ledger written_def)
qed

lemma hash_one_tree: "hash_one s c (e\<lparr>fs_tree := t\<rparr>) f st = hash_one s c e f st"
  by (simp add: hash_one_def split: file_read.splits option.splits)

lemma hash_file_tree: "hash_file s c (e\<lparr>fs_tree := t\<rparr>) fs st = hash_file s c e fs st"
  by (induction fs arbitrary: st) (simp_all add: hash_one_tree)

lemma written_Nil [simp]: "written s c e [] = id"
  by (rule ext) (simp add: written_def)

lemma written_keeps:
  "hash_col s' r \<noteq> None \<Longrightarrow> hash_col s' (written s c e fs r) \<noteq> None"
  by (auto simp: written_def hash_col_set_col split: option.splits)

lemma hash_one_lines:
  assumes "fails s c e f"
  shows "\<exists>line. hash_one s c e f (db, lg) = (db, lg @ [line]) \<and>
           ((\<exists>err. line = ''error opening: '' @ f @ '': '' @ err) \<or>
            (\<exists>err. line = ''error reading from '' @ f @ '': '' @ err) \<or>
            (\<exists>err. line = ''error adding hash to DB: '' @ err))"
  using assms
  by (auto simp: fails_def hash_one_def split: file_read.splits option.splits)

lemma failed_rows_kept:
  assumes "fails s c e f" and "i < length db" and "filename (db ! i) = f"
  shows "fst (hash_file s c e queue (db, lg)) ! i = db ! i"
  using assms by (simp add: hash_file_ledger written_def stored_fails)

lemma failed_reselected:
  assumes "fails s c e f" and "f \<in> set (select_pending s c db)"
  shows "f \<in> set (select_pending s c (fst (hash_file s c e queue (db, lg))))"
proof -
  from assms(2) obtain r where r: "r \<in> set db" "holds (pending_cond s c) r" "filename r = f"
    by (auto simp: select_pending_def)
  with assms(1) have "written s c e queue r = r"
    by (simp add: written_def stored_fails)
  with r have "r \<in> set (map (written s c e queue) db)"
    by (metis image_eqI set_map)
  with r show ?thesis
    by (auto simp: select_pending_def hash_file_ledger)
qed

lemma sprintf_x_empty_digest:
  "sprintf_x sha256_of_empty =
     ''e3b0c44298fc1c149afbf4c8996fb92427ae41e4649b934ca495991b7852b855''"
  by code_simp

lemma hex_byte_lower:
  "length (hex_byte b) = 2 \<and> set (hex_byte b) \<subseteq> set ''0123456789abcdef''"
proof -
  have "unat b < 256" using unsigned_less [of b] by simp
  then have 1: "unat b div 16 < 16" and 2: "unat b mod 16 < 16" by simp_all
  have "hexdigit n \<in> set ''0123456789abcdef''" if "n < 16" for n
    unfolding hexdigit_def using that by (intro nth_mem) simp
  with 1 2 show ?thesis by (simp add: hex_byte_def)
qed

lemma sprintf_x_lower_hex:
  "length (sprintf_x bs) = 2 * length bs \<and> set (sprintf_x bs) \<subseteq> set ''0123456789abcdef''"
proof (induction bs)
  case Nil
  show ?case by (simp add: sprintf_x_def)
next
  case (Cons b bs)
  with hex_byte_lower [of b] show ?case by (simp add: sprintf_x_def)
qed

subsection \<open>The transaction of the walk\<close>

lemma mset_shuffle [simp]: "mset (shuffle ns xs) = mset xs"
proof (induction ns arbitrary: xs)
  case Nil
  show ?case by simp
next
  case (Cons n ns)
  show ?case
  proof (cases "xs = []")
    case True
    then show ?thesis by simp
  next
    case False
    let ?i = "n mod length xs"
    from False have i: "?i < length xs" by simp
    have "mset xs = mset (take ?i xs @ xs ! ?i # drop (Suc ?i) xs)"
      using id_take_nth_drop [OF i] by simp
    with False Cons.IH [of "take ?i xs @ drop (Suc ?i) xs"] show ?thesis by simp
  qed
qed

lemma set_shuffle [simp]: "set (shuffle ns xs) = set xs"
  using mset_shuffle [of ns xs] by (rule mset_eq_setD)

lemma copy_rows:
  "fold db_apply (map CopyRow rs) st = st\<lparr>staged := staged st @ rs\<rparr>"
  by (induction rs arbitrary: st) simp_all

lemma walk_calls_cases:
  "(\<exists>p cs. walk_calls c e = (cs, Some p) \<and>
      (cs = [] \<or> (\<exists>rs. cs = Begin # Prepare # map CopyRow rs) \<or> cs = [Begin] \<or>
       (\<exists>rs. cs = Begin # Prepare # map CopyRow rs @ [CopyEnd]) \<or>
       (\<exists>rs. cs = Begin # Prepare # map CopyRow rs @ [CopyEnd, CloseStmt]))) \<or>
   (\<exists>rows. spawn_walkers c e [(New_path c, fs_tree e)] [] = Inr rows \<and>
      \<not> begin_fails e \<and> \<not> prepare_fails e \<and> \<not> flush_fails e \<and> \<not> close_fails e \<and>
      \<not> commit_fails e \<and>
      walk_calls c e =
        (Begin # Prepare # map CopyRow (shuffle (stage_order e) rows) @ [CopyEnd, CloseStmt, Commit],
         None))"
proof (cases "spawn_walkers c e [(New_path c, fs_tree e)] []")
  case (Inl p)
  then have "walk_calls c e = ([], Some (DieIf ''db.Begin'')) \<or>
      walk_calls c e = ([Begin], Some (DieIf ''txn.Prepare'')) \<or>
      walk_calls c e = (Begin # Prepare # map CopyRow [], Some p)"
    by (simp add: walk_calls_def)
  then show ?thesis by blast
next
  case (Inr rows)
  let ?rs = "shuffle (stage_order e) rows"
  from Inr have "walk_calls c e = ([], Some (DieIf ''db.Begin'')) \<or>
      walk_calls c e = ([Begin], Some (DieIf ''txn.Prepare'')) \<or>
      walk_calls c e = (Begin # Prepare # map CopyRow ?rs, Some (DieIf ''stmt.Exec'')) \<or>
      walk_calls c e = (Begin # Prepare # map CopyRow ?rs @ [CopyEnd], Some (DieIf ''stmt.Close'')) \<or>
      walk_calls c e = (Begin # Prepare # map CopyRow ?rs @ [CopyEnd, CloseStmt], Some (DieIf ''txn.Commit'')) \<or>
      (\<not> begin_fails e \<and> \<not> prepare_fails e \<and> \<not> flush_fails e \<and> \<not> close_fails e \<and>
       \<not> commit_fails e \<and>
       walk_calls c e = (Begin # Prepare # map CopyRow ?rs @ [CopyEnd, CloseStmt, Commit], None))"
    by (simp add: walk_calls_def Let_def)
  with Inr show ?thesis by blast
qed

text \<open>Calls other than \<open>Commit\<close> inside a transaction leave the committed table alone.\<close>

lemma no_commit_keeps:
  "Commit \<notin> set cs \<Longrightarrow> in_txn st \<noteq> None \<Longrightarrow>
     committed (fold db_apply cs st) = committed st \<and> in_txn (fold db_apply cs st) \<noteq> None"
proof (induction cs arbitrary: st)
  case Nil
  then show ?case by simp
next
  case (Cons a cs)
  from Cons.prems have a: "committed (db_apply a st) = committed st \<and> in_txn (db_apply a st) \<noteq> None"
    by (cases a) auto
  from Cons.prems have "Commit \<notin> set cs" by simp
  from Cons.IH [OF this, of "db_apply a st"] a show ?case by simp
qed

lemma begun_keeps:
  assumes "Commit \<notin> set cs" and "cs = [] \<or> hd cs = Begin"
  shows "committed (fold db_apply cs (db_start db)) = db"
proof (cases cs)
  case Nil
  then show ?thesis by (simp add: db_start_def)
next
  case (Cons a rest)
  with assms have "a = Begin" "Commit \<notin> set rest" by auto
  with Cons no_commit_keeps [of rest "(db_start db)\<lparr>in_txn := Some []\<rparr>"] show ?thesis
    by (simp add: db_start_def)
qed

lemma copied_keeps:
  "committed (fold db_apply (Begin # Prepare # map CopyRow rs) (db_start db)) = db"
  by (rule begun_keeps) auto

lemma walk_calls_begin:
  "fst (walk_calls c e) = [] \<or> hd (fst (walk_calls c e)) = Begin"
  using walk_calls_cases [of c e] by auto

lemma walk_calls_no_commit:
  assumes "k < length (fst (walk_calls c e)) \<or> snd (walk_calls c e) \<noteq> None"
  shows "Commit \<notin> set (take k (fst (walk_calls c e)))"
proof -
  from walk_calls_cases [of c e] show ?thesis
  proof
    assume "\<exists>p cs. walk_calls c e = (cs, Some p) \<and>
      (cs = [] \<or> (\<exists>rs. cs = Begin # Prepare # map CopyRow rs) \<or> cs = [Begin] \<or>
       (\<exists>rs. cs = Begin # Prepare # map CopyRow rs @ [CopyEnd]) \<or>
       (\<exists>rs. cs = Begin # Prepare # map CopyRow rs @ [CopyEnd, CloseStmt]))"
    then have "Commit \<notin> set (fst (walk_calls c e))" by auto
    then show ?thesis by (meson in_set_takeD)
  next
    assume "\<exists>rows. spawn_walkers c e [(New_path c, fs_tree e)] [] = Inr rows \<and>
      \<not> begin_fails e \<and> \<not> prepare_fails e \<and> \<not> flush_fails e \<and> \<not> close_fails e \<and>
      \<not> commit_fails e \<and>
      walk_calls c e =
        (Begin # Prepare # map CopyRow (shuffle (stage_order e) rows) @ [CopyEnd, CloseStmt, Commit],
         None)"
    then obtain rows where w: "walk_calls c e =
        (Begin # Prepare # map CopyRow (shuffle (stage_order e) rows) @ [CopyEnd, CloseStmt, Commit],
         None)" by blast
    let ?pre = "Begin # Prepare # map CopyRow (shuffle (stage_order e) rows) @ [CopyEnd, CloseStmt]"
    have "\<exists>pre. fst (walk_calls c e) = pre @ [Commit] \<and> Commit \<notin> set pre"
      by (rule exI [of _ ?pre]) (auto simp: w)
    then obtain pre where cs: "fst (walk_calls c e) = pre @ [Commit]" and nc: "Commit \<notin> set pre"
      by blast
    from cs have len: "length (fst (walk_calls c e)) = Suc (length pre)" by simp
    from w have "snd (walk_calls c e) = None" by simp
    with assms len have "k \<le> length pre" by simp
    with cs have "take k (fst (walk_calls c e)) = take k pre" by simp
    moreover note nc
    ultimately show ?thesis by (metis in_set_takeD)
  qed
qed

lemma committed_before_commit:
  assumes "k < length (fst (walk_calls c e)) \<or> snd (walk_calls c e) \<noteq> None"
  shows "committed (fold db_apply (take k (fst (walk_calls c e))) (db_start db)) = db"
proof (rule begun_keeps)
  show "Commit \<notin> set (take k (fst (walk_calls c e)))"
    by (rule walk_calls_no_commit [OF assms])
  from walk_calls_begin [of c e]
  show "take k (fst (walk_calls c e)) = [] \<or> hd (take k (fst (walk_calls c e))) = Begin"
    by (cases k; cases "fst (walk_calls c e)") auto
qed

lemma db_abort_committed [simp]: "committed (db_abort st) = committed st"
  by (simp add: db_abort_def)

lemma file_walk_panicked:
  assumes "snd (walk_calls c e) = Some p"
  shows "file_walk c e db = (Panicked p, db)"
proof -
  from assms have "snd (walk_calls c e) \<noteq> None" by simp
  then have "committed (fold db_apply (take (length (fst (walk_calls c e))) (fst (walk_calls c e)))
      (db_start db)) = db"
    using committed_before_commit [of _ c e db] by blast
  with assms show ?thesis by (simp add: file_walk_def)
qed

lemma file_walk_completed:
  assumes "snd (walk_calls c e) = None"
  shows "\<exists>rows. spawn_walkers c e [(New_path c, fs_tree e)] [] = Inr rows \<and>
     \<not> begin_fails e \<and> \<not> prepare_fails e \<and> \<not> flush_fails e \<and> \<not> close_fails e \<and>
     \<not> commit_fails e \<and>
     file_walk c e db = (Completed, db @ shuffle (stage_order e) rows)"
proof -
  from walk_calls_cases [of c e] assms obtain rows where
    sw: "spawn_walkers c e [(New_path c, fs_tree e)] [] = Inr rows" and
    nf: "\<not> begin_fails e \<and> \<not> prepare_fails e \<and> \<not> flush_fails e \<and> \<not> close_fails e \<and>
      \<not> commit_fails e" and
    w: "walk_calls c e =
        (Begin # Prepare # map CopyRow (shuffle (stage_order e) rows) @ [CopyEnd, CloseStmt, Commit],
         None)"
    by auto
  have "file_walk c e db = (Completed, db @ shuffle (stage_order e) rows)"
    by (simp add: file_walk_def w copy_rows db_start_def)
  with sw nf show ?thesis by blast
qed

lemma file_walk_cases:
  "file_walk c e db = (oc, db') \<Longrightarrow>
     (\<exists>p. oc = Panicked p \<and> db' = db) \<or>
     (\<exists>rows. oc = Completed \<and> spawn_walkers c e [(New_path c, fs_tree e)] [] = Inr rows \<and>
        db' = db @ shuffle (stage_order e) rows)"
proof (cases "snd (walk_calls c e)")
  case None
  assume "file_walk c e db = (oc, db')"
  with file_walk_completed [OF None, of db] show ?thesis by auto
next
  case (Some p)
  assume "file_walk c e db = (oc, db')"
  with file_walk_panicked [OF Some, of db] show ?thesis by auto
qed

lemma hash_correct_file_walk:
  assumes "hash_correct s c e db"
  shows "hash_correct s c e (snd (file_walk c e db))"
proof -
  obtain oc db' where r: "file_walk c e db = (oc, db')" by (cases "file_walk c e db")
  from file_walk_cases [OF r] show ?thesis
  proof
    assume "\<exists>p. oc = Panicked p \<and> db' = db"
    with assms r show ?thesis by auto
  next
    assume "\<exists>rows. oc = Completed \<and>
      spawn_walkers c e [(New_path c, fs_tree e)] [] = Inr rows \<and>
      db' = db @ shuffle (stage_order e) rows"
    then obtain rows where
      sw: "spawn_walkers c e [(New_path c, fs_tree e)] [] = Inr rows" and
      d: "db' = db @ shuffle (stage_order e) rows"
      by blast
    from spawn_walkers_rows [OF sw] have "list_all fresh rows" by simp
    then have "list_all fresh (shuffle (stage_order e) rows)" by (simp add: list_all_iff)
    with assms r d show ?thesis by (simp add: hash_correct_fresh)
  qed
qed

subsection \<open>Quoted and plain identifiers\<close>

lemma escape_simps [simp]:
  "escape [] = []"
  "escape (ch # w) = (if ch = dquote then [dquote, dquote] else [ch]) @ escape w"
  by (simp_all add: escape_def)

lemma unquote_step:
  "rest \<noteq> [] \<Longrightarrow> ch \<noteq> dquote \<Longrightarrow> ch \<noteq> nul \<Longrightarrow>
     unquote (ch # rest) = map_option (\<lambda>w. ch # w) (unquote rest)"
  by (cases rest) simp_all

lemma unquote_escape: "nul \<notin> set w \<Longrightarrow> unquote (escape w @ [dquote]) = Some w"
proof (induction w)
  case Nil
  show ?case by simp
next
  case (Cons ch w)
  then have ih: "unquote (escape w @ [dquote]) = Some w" by simp
  show ?case
  proof (cases "ch = dquote")
    case True
    with ih show ?thesis by simp
  next
    case False
    moreover from Cons.prems have "ch \<noteq> nul" by auto
    ultimately show ?thesis using ih by (simp add: unquote_step)
  qed
qed

lemma takeWhile_no_nul: "nul \<notin> set w \<Longrightarrow> takeWhile (\<lambda>ch. ch \<noteq> nul) w = w"
  by (induction w) auto

lemma nul_takeWhile: "nul \<notin> set (takeWhile (\<lambda>ch. ch \<noteq> nul) name)"
  by (induction name) auto

lemma pg_ident_quoted:
  "pg_ident reserved (QuoteIdentifier name) =
     (if takeWhile (\<lambda>ch. ch \<noteq> nul) name = [] then None
      else Some (takeWhile (\<lambda>ch. ch \<noteq> nul) name))"
  using unquote_escape [OF nul_takeWhile, of name]
  by (simp add: pg_ident_def QuoteIdentifier_def escape_def)

lemma pg_ident_quoted_plain:
  "nul \<notin> set name \<Longrightarrow>
     pg_ident reserved (QuoteIdentifier name) = (if name = [] then None else Some name)"
proof -
  assume "nul \<notin> set name"
  then have tw: "takeWhile (\<lambda>ch. ch \<noteq> nul) name = name" by (rule takeWhile_no_nul)
  show ?thesis unfolding pg_ident_quoted tw ..
qed

lemma ident_cont_not_nul: "ident_cont ch \<Longrightarrow> ch \<noteq> nul"
  by (auto simp: ident_cont_def ident_start_def nul_def Let_def)

lemma plain_no_nul:
  assumes "plain w"
  shows "nul \<notin> set w"
proof
  assume "nul \<in> set w"
  moreover from assms have "\<forall>ch\<in>set w. ident_cont ch"
    by (cases w) (auto simp: plain_def list_all_iff ident_cont_def)
  ultimately show False using ident_cont_not_nul by blast
qed

lemma unquote_shorter: "unquote w = Some t \<Longrightarrow> length t < length w \<and> nul \<notin> set w"
proof (induction w arbitrary: t rule: unquote.induct)
  case 1
  then show ?case by simp
next
  case (2 ch)
  then show ?case by (auto simp: dquote_def nul_def split: if_splits)
next
  case (3 ch ch2 rest)
  show ?case
  proof (cases "ch = dquote")
    case True
    with "3.prems" have d2: "ch2 = dquote" by (auto split: if_splits)
    with True "3.prems" obtain t' where "unquote rest = Some t'" "t = dquote # t'" by auto
    with "3.IH"(1) [OF True d2] True d2 show ?thesis by (auto simp: dquote_def nul_def)
  next
    case False
    with "3.prems" have nn: "ch \<noteq> nul" by (auto split: if_splits)
    with False "3.prems" obtain t' where "unquote (ch2 # rest) = Some t'" "t = ch # t'" by auto
    with "3.IH"(2) [OF False nn] nn show ?thesis by auto
  qed
qed

lemma to_lower_upper: "is_upper ch \<Longrightarrow> to_lower ch \<noteq> ch"
proof
  assume u: "is_upper ch" and "to_lower ch = ch"
  then have "char_of (of_char ch + (32 :: nat)) = ch" by (simp add: to_lower_def)
  then have "(of_char (char_of (of_char ch + (32 :: nat)) :: char) :: nat) = of_char ch" by simp
  with u show False by (simp add: is_upper_def Let_def)
qed

lemma map_to_lower_upper: "list_ex is_upper w \<Longrightarrow> map to_lower w \<noteq> w"
  by (induction w) (auto simp: to_lower_upper)

lemma copy_text:
  "CopyIn tbl [''filename'', ''size'', ''changed''] =
     ''COPY '' @ QuoteIdentifier tbl @ '' ('' @ QuoteIdentifier ''filename'' @ '', '' @
       QuoteIdentifier ''size'' @ '', '' @ QuoteIdentifier ''changed'' @ '') FROM STDIN''"
  by (simp add: CopyIn_def upt_rec)

lemma map_to_lower_plain: "\<not> list_ex is_upper w \<Longrightarrow> map to_lower w = w"
  by (induction w) (auto simp: to_lower_def)

lemma table_ref_plain:
  assumes "\<not> needs_quoting reserved (Table_name c)"
  shows "table_ref reserved c k = Some (Table_name c)"
proof -
  let ?n = "Table_name c"
  from assms have pl: "plain ?n" and lo: "map to_lower ?n = ?n" and nr: "\<not> reserved ?n"
    by (auto simp: needs_quoting_def map_to_lower_plain)
  from pl have ne: "?n \<noteq> []" by (auto simp: plain_def)
  from pl have nd: "hd ?n \<noteq> dquote"
    by (cases ?n) (auto simp: plain_def ident_start_def dquote_def Let_def)
  have u: "pg_ident reserved ?n = Some ?n"
    using pl lo nr ne nd by (cases ?n) (auto simp: pg_ident_def)
  have q: "pg_ident reserved (QuoteIdentifier ?n) = Some ?n"
    using plain_no_nul [OF pl] ne by (simp add: pg_ident_quoted_plain)
  from u q show ?thesis by (cases k) (simp_all add: table_ref_def table_text_def)
qed

subsection \<open>The pool of workers\<close>

lemma hash_file_snoc:
  "hash_file s c e (fs @ [f]) st = hash_one s c e f (hash_file s c e fs st)"
  by (induction fs arbitrary: st) simp_all

lemma held_simps [simp]: "held [] = []" "held (w # ws) = holding w @ held ws"
  by (simp_all add: held_def)

lemma held_update:
  "i < length ws \<Longrightarrow>
     mset (held (ws[i := w])) + mset (holding (ws ! i)) = mset (held ws) + mset (holding w)"
proof (induction ws arbitrary: i)
  case Nil
  then show ?case by simp
next
  case (Cons a ws)
  then show ?case by (cases i) (simp_all add: add.assoc add.left_commute)
qed

lemma held_replicate [simp]: "held (replicate n Waiting) = []"
  by (induction n) (simp_all add: holding_def)

lemma held_Returned: "list_all (\<lambda>w. w = Returned) ws \<Longrightarrow> held ws = []"
  by (induction ws) (simp_all add: holding_def)

lemma not_Returned_update:
  "w \<noteq> Returned \<Longrightarrow> Returned \<in> set (ws[i := w]) \<Longrightarrow> Returned \<in> set ws"
  using set_update_subset_insert [of ws i w] by auto

lemma pool_inv_start: "pool_inv s c e res st (start_pool c res st)"
  by (simp add: pool_inv_def pool_shape_def pool_alive_def pool_work_def start_pool_def
      exI [of _ "[]"])

lemma pool_shape_fire:
  assumes "enabled s c e p a" and "pool_shape c p"
  shows "pool_shape c (fire s c e p a)"
proof (cases a)
  case Scan
  with assms show ?thesis
    by (cases "cursor p") (auto simp: pool_shape_def)
next
  case Send
  with assms show ?thesis
    by (cases "in_hand p") (auto simp: pool_shape_def)
next
  case Close
  with assms show ?thesis by (simp add: pool_shape_def)
next
  case (Receive i)
  with assms obtain f fs where th: "to_hash p = f # fs" by (cases "to_hash p") auto
  with assms(2) have "Returned \<notin> set (workers p)" by (auto simp: pool_shape_def)
  then have "Returned \<notin> set ((workers p)[i := Holding f])"
    using not_Returned_update [of "Holding f" "workers p" i] by blast
  with assms Receive th show ?thesis by (simp add: pool_shape_def)
next
  case (Finish i)
  with assms obtain f where h: "workers p ! i = Holding f"
    by (cases "workers p ! i") auto
  have "Returned \<in> set ((workers p)[i := Waiting]) \<Longrightarrow> Returned \<in> set (workers p)"
    using not_Returned_update [of Waiting "workers p" i] by blast
  with assms Finish h show ?thesis by (auto simp: pool_shape_def)
next
  case (Return i)
  with assms show ?thesis by (simp add: pool_shape_def)
qed

lemma pool_alive_fire:
  assumes "enabled s c e p a" and "pool_alive s e p"
  shows "pool_alive s e (fire s c e p a)"
proof (cases a)
  case Scan
  with assms show ?thesis
    by (cases "cursor p") (auto simp: pool_alive_def)
next
  case Send
  with assms show ?thesis
    by (cases "in_hand p") (auto simp: pool_alive_def)
next
  case Close
  with assms show ?thesis by (simp add: pool_alive_def)
next
  case (Receive i)
  with assms show ?thesis
    by (cases "to_hash p") (auto simp: pool_alive_def)
next
  case (Finish i)
  with assms show ?thesis
    by (cases "workers p ! i") (auto simp: pool_alive_def)
next
  case (Return i)
  with assms show ?thesis by (simp add: pool_alive_def)
qed

lemma pool_work_fire:
  assumes "enabled s c e p a" and "pool_work s c e res st p dn"
  shows "\<exists>dn'. pool_work s c e res st (fire s c e p a) dn'"
proof (cases a)
  case Scan
  with assms have "pool_work s c e res st (fire s c e p a) dn"
    by (cases "cursor p") (auto simp: pool_work_def)
  then show ?thesis ..
next
  case Send
  with assms have "pool_work s c e res st (fire s c e p a) dn"
    by (cases "in_hand p") (auto simp: pool_work_def)
  then show ?thesis ..
next
  case Close
  with assms have "pool_work s c e res st (fire s c e p a) dn"
    by (simp add: pool_work_def)
  then show ?thesis ..
next
  case (Receive i)
  with assms obtain f fs where th: "to_hash p = f # fs" by (cases "to_hash p") auto
  from assms Receive have i: "i < length (workers p)" "workers p ! i = Waiting" by simp_all
  from held_update [OF i(1), of "Holding f"] i(2)
  have "mset (held ((workers p)[i := Holding f])) = mset (held (workers p)) + {#f#}"
    by (simp add: holding_def)
  with assms(2) th Receive have "pool_work s c e res st (fire s c e p a) dn"
    by (simp add: pool_work_def)
  then show ?thesis ..
next
  case (Finish i)
  with assms obtain f where h: "workers p ! i = Holding f"
    by (cases "workers p ! i") auto
  from assms Finish have i: "i < length (workers p)" by simp
  from held_update [OF i, of Waiting] h
  have "mset (held (workers p)) = mset (held ((workers p)[i := Waiting])) + {#f#}"
    by (simp add: holding_def)
  with assms(2) h Finish have "pool_work s c e res st (fire s c e p a) (dn @ [f])"
    by (simp add: pool_work_def hash_file_snoc)
  then show ?thesis ..
next
  case (Return i)
  from assms Return have i: "i < length (workers p)" "workers p ! i = Waiting" by simp_all
  from held_update [OF i(1), of Returned] i(2)
  have "mset (held ((workers p)[i := Returned])) = mset (held (workers p))"
    by (simp add: holding_def)
  with assms(2) Return have "pool_work s c e res st (fire s c e p a) dn"
    by (simp add: pool_work_def)
  then show ?thesis ..
qed

lemma pool_inv_step:
  assumes "pool_step s c e p p'" and "pool_inv s c e res st p"
  shows "pool_inv s c e res st p'"
  using assms pool_shape_fire pool_alive_fire pool_work_fire
  unfolding pool_inv_def pool_step_def by blast

lemma pool_inv_reachable:
  assumes "(pool_step s c e)\<^sup>*\<^sup>* (start_pool c res st) p"
  shows "pool_inv s c e res st p"
  using assms
  by (induction rule: rtranclp_induct) (auto intro: pool_inv_start pool_inv_step)

lemma enabled_actions: "enabled s c e p a \<Longrightarrow> a \<in> set (actions p)"
  by (cases a) (auto simp: actions_def)

lemma run_pool_reachable: "(pool_step s c e)\<^sup>*\<^sup>* p (run_pool s c e sched p)"
proof (induction s c e sched p rule: run_pool.induct)
  case (1 s c e sched p)
  show ?case
  proof (cases "filter (enabled s c e p) (actions p)")
    case Nil
    then show ?thesis by (simp add: run_pool.simps [of s c e sched p])
  next
    case (Cons a as)
    let ?b = "pick sched (a # as)"
    have "?b \<in> set (a # as)" by (rule pick_in) simp
    with Cons have "?b \<in> set (filter (enabled s c e p) (actions p))" by simp
    then have "enabled s c e p ?b" by simp
    then have "pool_step s c e p (fire s c e p ?b)" unfolding pool_step_def by blast
    moreover from "1.IH" [OF Cons]
    have "(pool_step s c e)\<^sup>*\<^sup>* (fire s c e p ?b) (run_pool s c e (tl sched) (fire s c e p ?b))" .
    ultimately show ?thesis
      using Cons by (simp add: run_pool.simps [of s c e sched p])
  qed
qed

lemma run_pool_final: "\<not> enabled s c e (run_pool s c e sched p) a"
proof (induction s c e sched p rule: run_pool.induct)
  case (1 s c e sched p)
  show ?case
  proof (cases "filter (enabled s c e p) (actions p)")
    case Nil
    then have "\<not> enabled s c e p a"
      using enabled_actions [of s c e p a] by (auto simp: filter_empty_conv)
    with Nil show ?thesis by (simp add: run_pool.simps [of s c e sched p])
  next
    case (Cons b bs)
    from "1.IH" [OF Cons] Cons show ?thesis
      by (simp add: run_pool.simps [of s c e sched p])
  qed
qed


lemma pool_progress:
  assumes "pool_shape c p" and "dead p = None" and "\<not> pool_done p"
    and "Db_maxconnections c \<noteq> 1"
  shows "\<exists>a. enabled s c e p a"
proof -
  from assms(1) have len: "length (workers p) = 8"
    by (simp add: pool_shape_def hash_threads_def)
  then have w0: "0 < length (workers p)" by simp
  show ?thesis
  proof (cases "\<exists>i<length (workers p). \<exists>f. workers p ! i = Holding f")
    case True
    then obtain i f where "i < length (workers p)" "workers p ! i = Holding f" by blast
    with assms(2,4) have "enabled s c e p (Finish i)" by (simp add: conn_free_def)
    then show ?thesis ..
  next
    case noh: False
    have recv: "enabled s c e p (Receive 0)" if th: "to_hash p \<noteq> []"
    proof -
      from th assms(1) have "Returned \<notin> set (workers p)" by (auto simp: pool_shape_def)
      with w0 have "workers p ! 0 \<noteq> Returned" by (metis nth_mem)
      with noh w0 have "workers p ! 0 = Waiting" by (cases "workers p ! 0") auto
      with w0 th assms(2) show ?thesis by simp
    qed
    show ?thesis
    proof (cases "in_hand p")
      case (Some f)
      show ?thesis
      proof (cases "length (to_hash p) < hash_threads c")
        case True
        with Some assms(2) have "enabled s c e p Send" by simp
        then show ?thesis ..
      next
        case False
        then have "to_hash p \<noteq> []" by (auto simp: hash_threads_def)
        from recv [OF this] show ?thesis ..
      qed
    next
      case None
      show ?thesis
      proof (cases "cursor p")
        case (Cons f fs)
        with None assms(2) have "enabled s c e p Scan" by simp
        then show ?thesis ..
      next
        case Nil
        show ?thesis
        proof (cases "closed p")
          case False
          with Nil None assms(2) have "enabled s c e p Close" by simp
          then show ?thesis ..
        next
          case cl: True
          show ?thesis
          proof (cases "to_hash p")
            case (Cons g gs)
            then have "to_hash p \<noteq> []" by simp
            from recv [OF this] show ?thesis ..
          next
            case th: Nil
            show ?thesis
            proof (cases "\<exists>i<length (workers p). workers p ! i = Waiting")
              case True
              then obtain i where "i < length (workers p)" "workers p ! i = Waiting" by blast
              with th cl assms(2) have "enabled s c e p (Return i)" by simp
              then show ?thesis ..
            next
              case False
              with noh have "\<forall>i<length (workers p). workers p ! i = Returned"
                by (metis worker.exhaust)
              with th Nil None cl assms(2) have "pool_done p"
                by (simp add: pool_done_def list_all_length)
              with assms(3) show ?thesis by simp
            qed
          qed
        qed
      qed
    qed
  qed
qed

lemma run_pool_inv:
  "pool_inv s c e res st (run_pool s c e sched (start_pool c res st))"
  by (rule pool_inv_reachable) (rule run_pool_reachable)

lemma run_pool_no_deadlock:
  assumes "Db_maxconnections c \<noteq> 1"
  shows "pool_outcome (run_pool s c e sched (start_pool c res st)) \<noteq> Deadlocked"
proof
  let ?q = "run_pool s c e sched (start_pool c res st)"
  assume d: "pool_outcome ?q = Deadlocked"
  then have "dead ?q = None" "\<not> pool_done ?q"
    by (auto simp: pool_outcome_def split: option.splits if_splits)
  moreover from run_pool_inv [of s c e res st sched] have "pool_shape c ?q"
    by (simp add: pool_inv_def)
  ultimately obtain a where "enabled s c e ?q a"
    using pool_progress [OF _ _ _ assms, of ?q s e] by blast
  with run_pool_final [of s c e sched "start_pool c res st" a] show False by simp
qed

lemma run_pool_panic:
  assumes "pool_outcome (run_pool s c e sched (start_pool c res st)) = Panicked pn"
  shows "pn = DieIf ''res.Scan'' \<and> scan_fails e s \<noteq> None"
proof -
  let ?q = "run_pool s c e sched (start_pool c res st)"
  from run_pool_inv [of s c e res st sched] have "pool_alive s e ?q"
    by (simp add: pool_inv_def)
  with assms show ?thesis
    by (auto simp: pool_outcome_def pool_alive_def split: option.splits if_splits)
qed

lemma run_pool_table:
  "\<exists>dn. mset dn \<subseteq># mset res \<and>
        table (run_pool s c e sched (start_pool c res st)) = hash_file s c e dn st \<and>
        (pool_outcome (run_pool s c e sched (start_pool c res st)) = Completed \<longrightarrow>
           mset dn = mset res)"
proof -
  let ?q = "run_pool s c e sched (start_pool c res st)"
  from run_pool_inv [of s c e res st sched] obtain dn where
    dn: "table ?q = hash_file s c e dn st"
        "mset dn + mset (held (workers ?q)) + mset (to_hash ?q) +
           mset (case in_hand ?q of None \<Rightarrow> [] | Some f \<Rightarrow> [f]) + mset (cursor ?q) = mset res"
    unfolding pool_inv_def pool_work_def by blast
  have "mset dn \<subseteq># mset dn + (mset (held (workers ?q)) + mset (to_hash ?q) +
           mset (case in_hand ?q of None \<Rightarrow> [] | Some f \<Rightarrow> [f]) + mset (cursor ?q))"
    by (rule mset_subset_eq_add_left)
  also have "\<dots> = mset res" using dn(2) by (simp add: add.assoc)
  finally have sub: "mset dn \<subseteq># mset res" .
  have "mset dn = mset res" if "pool_outcome ?q = Completed"
  proof -
    from that have "pool_done ?q"
      by (auto simp: pool_outcome_def split: option.splits if_splits)
    then have "held (workers ?q) = []" "to_hash ?q = []" "in_hand ?q = None" "cursor ?q = []"
      by (simp_all add: pool_done_def held_Returned)
    with dn(2) show ?thesis by simp
  qed
  with dn(1) sub show ?thesis by blast
qed

subsection \<open>A phase and the loop of one worker\<close>

lemma written_set: "set fs = set gs \<Longrightarrow> written s c e fs = written s c e gs"
  by (rule ext) (simp add: written_def)

lemma hash_one_log: "snd (hash_one s c e f st) = snd st @ item_line s c e f"
  by (simp add: hash_one_def item_line_def split: file_read.splits option.splits)

lemma hash_file_log: "snd (hash_file s c e fs st) = snd st @ concat (map (item_line s c e) fs)"
  by (induction fs arbitrary: st) (simp_all add: hash_one_log)

lemma mset_concat_map:
  "mset (concat (map f xs)) = sum_mset (image_mset (\<lambda>x. mset (f x)) (mset xs))"
  by (induction xs) simp_all

lemma hash_file_perm:
  assumes "mset fs = mset gs"
  shows "fst (hash_file s c e fs st) = fst (hash_file s c e gs st) \<and>
         mset (snd (hash_file s c e fs st)) = mset (snd (hash_file s c e gs st))"
proof -
  from assms have "set fs = set gs" by (rule mset_eq_setD)
  then have "written s c e fs = written s c e gs" by (rule written_set)
  then have 1: "fst (hash_file s c e fs st) = fst (hash_file s c e gs st)"
    by (simp add: hash_file_ledger)
  from assms
  have "mset (concat (map (item_line s c e) fs)) = mset (concat (map (item_line s c e) gs))"
    by (simp add: mset_concat_map)
  with 1 show ?thesis by (simp add: hash_file_log)
qed

lemma hash_phase_loop:
  "\<exists>dn. mset dn \<subseteq># mset (query_result s c e (fst st)) \<and>
        snd (hash_phase s c e st) = hash_file s c e dn st \<and>
        (fst (hash_phase s c e st) = Completed \<longrightarrow> mset dn = mset (query_result s c e (fst st)))"
proof (cases "query_fails e s")
  case True
  then have "mset [] \<subseteq># mset (query_result s c e (fst st)) \<and>
        snd (hash_phase s c e st) = hash_file s c e [] st \<and>
        (fst (hash_phase s c e st) = Completed \<longrightarrow> mset [] = mset (query_result s c e (fst st)))"
    by (simp add: hash_phase_def)
  then show ?thesis by (rule exI)
next
  case False
  with run_pool_table [of "query_result s c e (fst st)" s c e "schedule e s" st]
  show ?thesis by (simp add: hash_phase_def Let_def)
qed

lemma hash_phase_written:
  "\<exists>fs. set fs \<subseteq> set (query_result s c e (fst st)) \<and>
        fst (snd (hash_phase s c e st)) = map (written s c e fs) (fst st)"
proof -
  from hash_phase_loop [of s c e st] obtain dn where
    dn: "mset dn \<subseteq># mset (query_result s c e (fst st))"
        "snd (hash_phase s c e st) = hash_file s c e dn st" by blast
  from set_mset_mono [OF dn(1)] have "set dn \<subseteq> set (query_result s c e (fst st))" by simp
  with dn(2) show ?thesis by (auto simp: hash_file_ledger)
qed

lemma phase_filenames:
  "map filename (fst (snd (hash_phase s c e st))) = map filename (fst st)"
  using hash_phase_written [of s c e st] by auto

lemma hash_correct_phase:
  "hash_correct s' c e (fst st) \<Longrightarrow> hash_correct s' c e (fst (snd (hash_phase s c e st)))"
  using hash_phase_written [of s c e st] by (auto simp: hash_correct_written)

lemma phase_panic:
  assumes "fst (hash_phase s c e st) = Panicked pn"
  shows "(query_fails e s \<and> pn = DieIf ''db.Query'') \<or>
         (\<not> query_fails e s \<and> scan_fails e s \<noteq> None \<and> pn = DieIf ''res.Scan'')"
proof (cases "query_fails e s")
  case True
  with assms show ?thesis by (simp add: hash_phase_def)
next
  case False
  with assms have "pool_outcome (run_pool s c e (schedule e s)
      (start_pool c (query_result s c e (fst st)) st)) = Panicked pn"
    by (simp add: hash_phase_def Let_def)
  from run_pool_panic [OF this] False show ?thesis by simp
qed

lemma phase_no_deadlock:
  assumes "Db_maxconnections c \<noteq> 1"
  shows "fst (hash_phase s c e st) \<noteq> Deadlocked"
  using run_pool_no_deadlock [OF assms] by (simp add: hash_phase_def Let_def)

lemma phase_completes:
  assumes "Db_maxconnections c \<noteq> 1" and "\<not> query_fails e s" and "scan_fails e s = None"
  shows "fst (hash_phase s c e st) = Completed"
proof (cases "fst (hash_phase s c e st)")
  case Completed
  then show ?thesis .
next
  case (Panicked pn)
  from phase_panic [OF this] assms show ?thesis by simp
next
  case Deadlocked
  with phase_no_deadlock [OF assms(1)] show ?thesis by simp
qed

lemma phase_completed_result:
  assumes "fst (hash_phase s c e st) = Completed"
  shows "fst (snd (hash_phase s c e st)) = fst (hash_file s c e (query_result s c e (fst st)) st) \<and>
         mset (snd (snd (hash_phase s c e st))) =
           mset (snd (hash_file s c e (query_result s c e (fst st)) st))"
proof -
  from hash_phase_loop [of s c e st] assms obtain dn where
    "mset dn = mset (query_result s c e (fst st))"
    "snd (hash_phase s c e st) = hash_file s c e dn st" by blast
  with hash_file_perm [of dn "query_result s c e (fst st)" s c e st] show ?thesis by simp
qed

subsection \<open>The run does not look at the tree once the table has rows\<close>

lemma needs_conn_tree: "needs_conn s c (e\<lparr>fs_tree := t\<rparr>) f = needs_conn s c e f"
  by (simp add: needs_conn_def)

lemma enabled_tree: "enabled s c (e\<lparr>fs_tree := t\<rparr>) p a = enabled s c e p a"
  by (cases a) (simp_all add: needs_conn_tree split: worker.splits)

lemma fire_tree: "fire s c (e\<lparr>fs_tree := t\<rparr>) p a = fire s c e p a"
  by (cases a) (simp_all add: hash_one_tree split: worker.splits list.splits)

lemma run_pool_tree: "run_pool s c (e\<lparr>fs_tree := t\<rparr>) sched p = run_pool s c e sched p"
proof (induction s c e sched p rule: run_pool.induct)
  case (1 s c e sched p)
  have en: "enabled s c (e\<lparr>fs_tree := t\<rparr>) p = enabled s c e p"
    by (rule ext) (rule enabled_tree)
  show ?case
  proof (cases "filter (enabled s c e p) (actions p)")
    case Nil
    then show ?thesis
      by (simp add: run_pool.simps [of s c e sched p] run_pool.simps [of s c "e\<lparr>fs_tree := t\<rparr>" sched p] en)
  next
    case (Cons a as)
    from "1.IH" [OF Cons] Cons show ?thesis
      by (simp add: run_pool.simps [of s c e sched p] run_pool.simps [of s c "e\<lparr>fs_tree := t\<rparr>" sched p]
          en fire_tree)
  qed
qed

lemma hash_phase_tree: "hash_phase s c (e\<lparr>fs_tree := t\<rparr>) st = hash_phase s c e st"
  by (simp add: hash_phase_def run_pool_tree query_result_def Let_def)

lemma hash_phases_tree: "hash_phases c (e\<lparr>fs_tree := t\<rparr>) st = hash_phases c e st"
  by (simp add: hash_phases_def hash_phase_tree split: prod.splits outcome.splits)

subsection \<open>The two phases and \<open>main\<close>\<close>

lemma hash_phases_written:
  "\<exists>fs1 fs2. fst (snd (hash_phases c e st)) =
     map (written Old c e fs2) (map (written New c e fs1) (fst st))"
proof -
  obtain o1 st1 where p1: "hash_phase New c e st = (o1, st1)" by (cases "hash_phase New c e st")
  from hash_phase_written [of New c e st] p1 obtain fs1 where
    f1: "fst st1 = map (written New c e fs1) (fst st)" by auto
  from hash_phase_written [of Old c e st1] obtain fs2 where
    f2: "fst (snd (hash_phase Old c e st1)) = map (written Old c e fs2) (fst st1)" by auto
  show ?thesis
  proof (cases o1)
    case Completed
    with p1 f1 f2 have "fst (snd (hash_phases c e st)) =
        map (written Old c e fs2) (map (written New c e fs1) (fst st))"
      by (simp add: hash_phases_def)
    then show ?thesis by blast
  next
    case (Panicked pn)
    with p1 f1 have "fst (snd (hash_phases c e st)) =
        map (written Old c e []) (map (written New c e fs1) (fst st))"
      by (simp add: hash_phases_def)
    then show ?thesis by blast
  next
    case Deadlocked
    with p1 f1 have "fst (snd (hash_phases c e st)) =
        map (written Old c e []) (map (written New c e fs1) (fst st))"
      by (simp add: hash_phases_def)
    then show ?thesis by blast
  qed
qed

lemma main_nonempty:
  assumes "db \<noteq> []"
  shows "main c e db =
     (if create_fails e \<or> table_ref (reserved_words e) c CreateTable = None then
        (Panicked (DieIf ''db.Exec''), db, [])
      else if count_fails e then (Panicked (DieIf ''db.QueryRow''), db, [])
      else if table_ref (reserved_words e) c (SelectPending New) =
              table_ref (reserved_words e) c CreateTable
      then hash_phases c e (db, [])
      else
        (case other_table e of
           None \<Rightarrow> (Panicked (DieIf ''db.Query''), db, [])
         | Some t \<Rightarrow> (fst (hash_phases c e (t, [])), db, snd (snd (hash_phases c e (t, []))))))"
  using assms by (simp add: main_def)

lemma main_ledger:
  "fst (snd (main c e db)) = db \<or>
   (\<exists>p. file_walk c e db = (Panicked p, fst (snd (main c e db))) \<and> db = []) \<or>
   (\<exists>db1. (if db = [] then file_walk c e db else (Completed, db)) = (Completed, db1) \<and>
      (fst (snd (main c e db)) = db1 \<or>
       fst (snd (main c e db)) = fst (snd (hash_phases c e (db1, [])))))"
proof -
  let ?w = "if db = [] then file_walk c e db else (Completed, db)"
  obtain o1 db1 where w: "?w = (o1, db1)" by (cases ?w)
  show ?thesis
  proof (cases o1)
    case Completed
    with w have "fst (snd (main c e db)) = db \<or> fst (snd (main c e db)) = db1 \<or>
        fst (snd (main c e db)) = fst (snd (hash_phases c e (db1, [])))"
      by (auto simp: main_def split: option.splits)
    with w Completed show ?thesis by auto
  next
    case (Panicked p)
    with w have "fst (snd (main c e db)) = db \<or> fst (snd (main c e db)) = db1"
      by (auto simp: main_def split: option.splits)
    with w Panicked show ?thesis by (auto split: if_splits)
  next
    case Deadlocked
    with w have "fst (snd (main c e db)) = db \<or> fst (snd (main c e db)) = db1"
      by (auto simp: main_def split: option.splits)
    with w Deadlocked file_walk_cases [of c e db Deadlocked db1] show ?thesis
      by (auto split: if_splits)
  qed
qed

lemma main_written:
  assumes "db \<noteq> []"
  shows "\<exists>fs1 fs2. fst (snd (main c e db)) = map (written Old c e fs2) (map (written New c e fs1) db)"
proof -
  from main_ledger [of c e db] assms have
    "fst (snd (main c e db)) = db \<or> fst (snd (main c e db)) = fst (snd (hash_phases c e (db, [])))"
    by auto
  then show ?thesis
  proof
    assume "fst (snd (main c e db)) = db"
    then have "fst (snd (main c e db)) = map (written Old c e []) (map (written New c e []) db)"
      by simp
    then show ?thesis by blast
  next
    assume "fst (snd (main c e db)) = fst (snd (hash_phases c e (db, [])))"
    with hash_phases_written [of c e "(db, [])"] show ?thesis by simp
  qed
qed

lemma main_filenames:
  assumes "db \<noteq> []"
  shows "map filename (fst (snd (main c e db))) = map filename db"
  using main_written [OF assms, of c e] by auto

subsection \<open>The walk under a clean root\<close>

lemma split_slash_nonempty [simp]: "split_slash p \<noteq> []"
  by (induction p) (auto split: list.splits)

lemma split_slash_name: "CHR ''/'' \<notin> set n \<Longrightarrow> split_slash n = [n]"
  by (induction n) auto

lemma split_slash_append:
  "CHR ''/'' \<notin> set n \<Longrightarrow> split_slash (p @ CHR ''/'' # n) = split_slash p @ [n]"
  by (induction p) (auto simp: split_slash_name split: list.splits)

lemma clean_elems_valid:
  "list_all valid_name ws \<Longrightarrow> clean_elems rooted out ws = rev out @ ws"
  by (induction ws arbitrary: out) (auto simp: valid_name_def)

lemma join_slash_snoc: "ws \<noteq> [] \<Longrightarrow> join_slash (ws @ [n]) = join_slash ws @ CHR ''/'' # n"
  by (induction ws rule: join_slash.induct) auto

lemma join_split: "join_slash (split_slash p) = p"
proof (induction p)
  case Nil
  show ?case by simp
next
  case (Cons x p)
  then show ?case
    by (cases "split_slash p"; cases "tl (split_slash p)") (auto split: list.splits)
qed

lemma split_slash_hd: "p \<noteq> [] \<Longrightarrow> has_prefix p ''/'' \<longleftrightarrow> hd (split_slash p) = []"
  by (cases p) (auto split: list.splits)

lemma Join_clean:
  assumes "clean_root p" and "valid_name n"
  shows "filepath_Join p n = p @ CHR ''/'' # n" and "clean_root (p @ CHR ''/'' # n)"
proof -
  from assms(2) have ns: "CHR ''/'' \<notin> set n" by (simp add: valid_name_def)
  obtain w ws where sp: "split_slash p = w # ws" by (cases "split_slash p") auto
  from assms(1) have pn: "p \<noteq> []" by (auto simp: clean_root_def valid_name_def)
  let ?q = "p @ CHR ''/'' # n"
  have spq: "split_slash ?q = w # ws @ [n]" by (simp add: split_slash_append [OF ns] sp)
  have rq: "has_prefix ?q ''/'' \<longleftrightarrow> w = []"
    using split_slash_hd [of ?q] spq by simp
  have jq: "join_slash (w # ws @ [n]) = ?q"
    using join_split [of ?q] spq by simp
  have "clean_root ?q \<longleftrightarrow>
      (if w = [] then ws @ [n] \<noteq> [] \<and> list_all valid_name (ws @ [n])
       else list_all valid_name (w # ws @ [n]))"
    unfolding clean_root_def spq by simp
  with assms sp show "clean_root ?q"
    by (auto simp: clean_root_def split: if_splits)
  show "filepath_Join p n = ?q"
  proof (cases "w = []")
    case True
    with assms(1) sp have v: "ws \<noteq> []" "list_all valid_name ws" by (auto simp: clean_root_def)
    with assms(2) have "clean_elems True [] (w # ws @ [n]) = ws @ [n]"
      using True by (simp add: clean_elems_valid)
    moreover have "''/'' @ join_slash (ws @ [n]) = join_slash ([] # ws @ [n])"
      using v(1) by (cases ws) auto
    ultimately show ?thesis
      using pn True rq jq by (simp add: filepath_Join_def filepath_Clean_def spq)
  next
    case False
    with assms(1) sp have v: "list_all valid_name (w # ws)" by (auto simp: clean_root_def)
    with assms(2) have "clean_elems False [] (w # ws @ [n]) = w # ws @ [n]"
      using clean_elems_valid [of "w # ws @ [n]" False "[]"] by simp
    then show ?thesis
      using pn False rq jq by (simp add: filepath_Join_def filepath_Clean_def spq)
  qed
qed

lemma has_prefix_append [simp]: "has_prefix (p @ s) p"
  by (induction p) auto

lemma has_prefix_longer: "has_prefix p q \<Longrightarrow> has_prefix (p @ s) q"
  by (induction p q rule: has_prefix.induct) auto

lemma below_child:
  assumes "below c d" and "valid_name n"
  shows "below c (d @ CHR ''/'' # n)" and "has_prefix (d @ CHR ''/'' # n) (New_path c @ ''/'')"
    and "filepath_Join d n = d @ CHR ''/'' # n" and "d @ CHR ''/'' # n \<noteq> d"
proof -
  from assms have cr: "clean_root d" by (simp add: below_def)
  from Join_clean [OF cr assms(2)] show "filepath_Join d n = d @ CHR ''/'' # n" by simp
  show hp: "has_prefix (d @ CHR ''/'' # n) (New_path c @ ''/'')"
  proof (cases "d = New_path c")
    case True
    have "has_prefix ((New_path c @ ''/'') @ n) (New_path c @ ''/'')" by (rule has_prefix_append)
    with True show ?thesis by simp
  next
    case False
    with assms have "has_prefix d (New_path c @ ''/'')" by (simp add: below_def)
    then show ?thesis by (rule has_prefix_longer)
  qed
  from Join_clean(2) [OF cr assms(2)] hp show "below c (d @ CHR ''/'' # n)" by (simp add: below_def)
  show "d @ CHR ''/'' # n \<noteq> d" by simp
qed

lemma TrimPrefix_below:
  "has_prefix p (New_path c @ ''/'') \<Longrightarrow>
     TrimPrefix p (New_path c @ ''/'') = drop (length (New_path c) + 1) p"
  by (simp add: TrimPrefix_def)

lemma walk_child:
  assumes "below c d" and "valid_name n" and "valid_tree ch" and "lstat ch \<noteq> None"
    and "walk (visit c e d) (d @ CHR ''/'' # n) ch st = Inr (er, st')"
  shows "\<exists>sent new. fst st' = fst st @ sent \<and> snd st' = snd st @ new \<and>
           list_all (walkable c) sent \<and>
           mset new + mset (expected_rows c sent) =
             mset (map (row_of c) (files_under (d @ CHR ''/'' # n) ch)) \<and>
           (er \<noteq> ErrNil \<longrightarrow> er = SkipDir \<and> IsDir (the (lstat ch)))"
proof (cases ch)
  case (Reg sz mt)
  from below_child [OF assms(1,2)] assms(5) Reg
  have "st' = (fst st, snd st @ [row_of c (d @ CHR ''/'' # n, sz, mt)])" "er = ErrNil"
    by (auto simp: visit_def visit_file_def lstat_def Let_def TrimPrefix_below row_of_def
        split: if_splits)
  with Reg show ?thesis by (simp add: expected_rows_def)
next
  case Special
  with assms(5) have "st' = st" "er = ErrNil"
    by (auto simp: visit_def visit_file_def lstat_def split: if_splits)
  with Special show ?thesis by (simp add: expected_rows_def)
next
  case (Dir readable es)
  show ?thesis
  proof (cases readable)
    case True
    with below_child [OF assms(1,2)] assms(5) Dir
    have "st' = (fst st @ [(d @ CHR ''/'' # n, ch)], snd st)" "er = SkipDir"
      by (auto simp: visit_def visit_file_def lstat_def split: if_splits)
    moreover have "walkable c (d @ CHR ''/'' # n, ch)"
      using below_child(1) [OF assms(1,2)] assms(3) Dir by (simp add: walkable_def lstat_def)
    ultimately show ?thesis using Dir by (simp add: expected_rows_def lstat_def)
  next
    case False
    with assms(5) Dir have "st' = st" "er = ErrNil"
      by (auto simp: visit_def visit_file_def lstat_def split: if_splits)
    with Dir False show ?thesis by (simp add: expected_rows_def)
  qed
next
  case Vanished
  with assms(4) show ?thesis by (simp add: lstat_def)
qed

lemma expected_rows_append [simp]:
  "expected_rows c (q @ q') = expected_rows c q @ expected_rows c q'"
  by (simp add: expected_rows_def)

lemma walk_names_files:
  assumes "below c d"
    and "list_all (\<lambda>x. valid_name (fst x) \<and> valid_tree (snd x)) es"
    and "walk_names (visit c e d) d es st = Inr (er, st')"
  shows "\<exists>sent new. fst st' = fst st @ sent \<and> snd st' = snd st @ new \<and>
           list_all (walkable c) sent \<and>
           mset new + mset (expected_rows c sent) =
             mset (map (row_of c) (concat (map (\<lambda>x. files_under (d @ CHR ''/'' # fst x) (snd x)) es)))"
  using assms(2,3)
proof (induction es arbitrary: st)
  case Nil
  then show ?case by (simp add: expected_rows_def)
next
  case (Cons x es)
  obtain n ch where x: "x = (n, ch)" by (cases x)
  from Cons.prems(1) x have v: "valid_name n" "valid_tree ch"
    and vs: "list_all (\<lambda>x. valid_name (fst x) \<and> valid_tree (snd x)) es" by simp_all
  note j = below_child(3) [OF assms(1) v(1)]
  show ?case
  proof (cases "lstat ch")
    case None
    with Cons.prems(2) x j show ?thesis
      by (simp add: visit_def visit_file_def)
  next
    case (Some info)
    with Cons.prems(2) x j obtain er1 st1 where
      w: "walk (visit c e d) (d @ CHR ''/'' # n) ch st = Inr (er1, st1)"
      by (cases "walk (visit c e d) (d @ CHR ''/'' # n) ch st") auto
    from Some have "lstat ch \<noteq> None" by simp
    from walk_child [OF assms(1) v this w] obtain sent1 new1 where
      1: "fst st1 = fst st @ sent1" "snd st1 = snd st @ new1" "list_all (walkable c) sent1"
         "mset new1 + mset (expected_rows c sent1) =
            mset (map (row_of c) (files_under (d @ CHR ''/'' # n) ch))"
         "er1 \<noteq> ErrNil \<longrightarrow> er1 = SkipDir \<and> IsDir (the (lstat ch))"
      by blast
    from 1(5) Some have "\<not> (er1 \<noteq> ErrNil \<and> (\<not> IsDir info \<or> er1 \<noteq> SkipDir))" by auto
    with Cons.prems(2) x j Some w have
      "walk_names (visit c e d) d es st1 = Inr (er, st')" by auto
    from Cons.IH [OF vs this] obtain sent2 new2 where
      2: "fst st' = fst st1 @ sent2" "snd st' = snd st1 @ new2" "list_all (walkable c) sent2"
         "mset new2 + mset (expected_rows c sent2) =
            mset (map (row_of c) (concat (map (\<lambda>x. files_under (d @ CHR ''/'' # fst x) (snd x)) es)))"
      by blast
    have "fst st' = fst st @ (sent1 @ sent2) \<and> snd st' = snd st @ (new1 @ new2) \<and>
          list_all (walkable c) (sent1 @ sent2) \<and>
          mset (new1 @ new2) + mset (expected_rows c (sent1 @ sent2)) =
            mset (map (row_of c) (concat (map (\<lambda>x. files_under (d @ CHR ''/'' # fst x) (snd x)) (x # es))))"
      using 1(1-3) 2(1-3) 1(4) [symmetric] 2(4) [symmetric] x by simp
    then show ?thesis by blast
  qed
qed

lemma walk_dir_files:
  assumes "walkable c (d, nd)" and "walk_dir c e d nd ([], rows) = Inr (sent, rows')"
  shows "\<exists>new. rows' = rows @ new \<and> list_all (walkable c) sent \<and>
           mset new + mset (expected_rows c sent) = mset (map (row_of c) (files_under d nd))"
proof -
  from assms(1) obtain readable es where nd: "nd = Dir readable es"
    by (cases nd) (auto simp: walkable_def lstat_def)
  from assms(1) nd have b: "below c d"
    and v: "list_all (\<lambda>x. valid_name (fst x) \<and> valid_tree (snd x)) es"
    by (simp_all add: walkable_def)
  have vis: "visit c e d d nd (lstat nd) (\<not> readable) ([], rows) = Inr (ErrNil, ([], rows))"
    using nd by (simp add: visit_def visit_file_def lstat_def)
  show ?thesis
  proof (cases readable)
    case False
    with assms(2) nd vis have "sent = []" "rows' = rows"
      by (auto simp: walk_dir_def filepath_Walk_def lstat_def)
    with nd False show ?thesis by (simp add: expected_rows_def)
  next
    case True
    with assms(2) nd vis obtain er where
      "walk_names (visit c e d) d es ([], rows) = Inr (er, (sent, rows'))"
      by (auto simp: walk_dir_def filepath_Walk_def lstat_def split: sum.splits)
    from walk_names_files [OF b v this] nd True show ?thesis by auto
  qed
qed

lemma spawn_walkers_files:
  assumes "list_all (walkable c) q" and "spawn_walkers c e q rows = Inr rows'"
  shows "mset rows' = mset rows + mset (expected_rows c q)"
  using assms
proof (induction c e q rows rule: spawn_walkers.induct)
  case (1 c e rows)
  then show ?case by (simp add: expected_rows_def)
next
  case (2 c e p nd to_walk rows)
  from "2.prems"(2) obtain sent rows1 where
    w: "walk_dir c e p nd ([], rows) = Inr (sent, rows1)"
    by (cases "walk_dir c e p nd ([], rows)") auto
  with "2.prems"(2) have sw: "spawn_walkers c e (to_walk @ sent) rows1 = Inr rows'" by simp
  from "2.prems"(1) have wk: "walkable c (p, nd)" "list_all (walkable c) to_walk" by simp_all
  from walk_dir_files [OF wk(1) w] obtain new where
    n: "rows1 = rows @ new" "list_all (walkable c) sent"
       "mset new + mset (expected_rows c sent) = mset (map (row_of c) (files_under p nd))"
    by blast
  from wk(2) n(2) have "list_all (walkable c) (to_walk @ sent)" by simp
  from "2.IH" [OF w refl this sw] have
    "mset rows' = mset rows1 + mset (expected_rows c (to_walk @ sent))" .
  with n(1) n(3) [symmetric] show ?case
    by (simp add: expected_rows_def)
qed

lemma enumeration_complete:
  assumes "clean_root (New_path c)" and "valid_tree (fs_tree e)" and "fs_tree e = Dir readable es"
    and "file_walk c e [] = (Completed, db)"
  shows "mset db = mset (map (row_of c) (files_under (New_path c) (fs_tree e)))"
proof -
  from assms(4) obtain rows where
    sw: "spawn_walkers c e [(New_path c, fs_tree e)] [] = Inr rows" and
    db: "db = shuffle (stage_order e) rows"
    using file_walk_cases [of c e "[]" Completed db] by auto
  have "walkable c (New_path c, fs_tree e)"
    using assms(1-3) by (simp add: walkable_def below_def lstat_def del: valid_tree.simps)
  then have "list_all (walkable c) [(New_path c, fs_tree e)]" by simp
  from spawn_walkers_files [OF this sw] db show ?thesis
    by (simp add: expected_rows_def)
qed

lemma enumeration_complete_example:
  "mset (snd (file_walk ex_conf ex_env [])) =
     {#\<lparr>filename = ''a.txt'', changed = 100, size_col = 4, hash_new = None, hash_old = None\<rparr>,
       \<lparr>filename = ''sub/b.txt'', changed = 200, size_col = 0, hash_new = None, hash_old = None\<rparr>#}"
proof -
  have 1: "clean_root (New_path ex_conf)" by code_simp
  have 2: "valid_tree (fs_tree ex_env)" by code_simp
  have 3: "fs_tree ex_env =
      Dir True [(''a.txt'', Reg 4 100), (''sub'', Dir True [(''b.txt'', Reg 0 200)])]"
    by (simp add: ex_env_def ex_tree_def)
  have 4: "file_walk ex_conf ex_env [] = (Completed, snd (file_walk ex_conf ex_env []))"
    by code_simp
  have 5: "map (row_of ex_conf) (files_under (New_path ex_conf) (fs_tree ex_env)) =
     [\<lparr>filename = ''a.txt'', changed = 100, size_col = 4, hash_new = None, hash_old = None\<rparr>,
      \<lparr>filename = ''sub/b.txt'', changed = 200, size_col = 0, hash_new = None, hash_old = None\<rparr>]"
    by code_simp
  from enumeration_complete [OF 1 2 3 4] 5 show ?thesis by simp
qed

subsection \<open>One connection\<close>

lemma length_held: "length (held ws) \<le> length ws"
  by (induction ws) (auto simp: holding_def split: worker.splits)

lemma in_held: "i < length ws \<Longrightarrow> ws ! i = Holding f \<Longrightarrow> f \<in> set (held ws)"
proof (induction ws arbitrary: i)
  case Nil
  then show ?case by simp
next
  case (Cons a ws)
  then show ?case by (cases i) (auto simp: holding_def)
qed

lemma pool_work_other:
  assumes "enabled s c e p a" and "\<forall>i. a \<noteq> Finish i" and "pool_work s c e res st p dn"
  shows "pool_work s c e res st (fire s c e p a) dn"
proof (cases a)
  case Scan
  with assms show ?thesis
    by (cases "cursor p") (auto simp: pool_work_def)
next
  case Send
  with assms show ?thesis
    by (cases "in_hand p") (auto simp: pool_work_def)
next
  case Close
  with assms show ?thesis
    by (simp add: pool_work_def)
next
  case (Receive i)
  with assms obtain f fs where th: "to_hash p = f # fs" by (cases "to_hash p") auto
  from assms Receive have i: "i < length (workers p)" "workers p ! i = Waiting" by simp_all
  from held_update [OF i(1), of "Holding f"] i(2)
  have "mset (held ((workers p)[i := Holding f])) = mset (held (workers p)) + {#f#}"
    by (simp add: holding_def)
  with assms(3) th Receive show ?thesis
    by (simp add: pool_work_def)
next
  case (Finish i)
  with assms(2) show ?thesis by simp
next
  case (Return i)
  from assms Return have i: "i < length (workers p)" "workers p ! i = Waiting" by simp_all
  from held_update [OF i(1), of Returned] i(2)
  have "mset (held ((workers p)[i := Returned])) = mset (held (workers p))"
    by (simp add: holding_def)
  with assms(3) Return show ?thesis
    by (simp add: pool_work_def)
qed

lemma one_connection_step:
  assumes m: "Db_maxconnections c = 1" and rd: "\<forall>f\<in>set res. needs_conn s c e f"
    and big: "2 * hash_threads c < length res" and sf: "scan_fails e s = None"
    and en: "enabled s c e p a" and w: "waiting_for_conn s c e res st p"
  shows "waiting_for_conn s c e res st (fire s c e p a)"
proof -
  from w have sh: "pool_shape c p" and nc: "\<not> closed p" and al: "dead p = None"
    and pw: "pool_work s c e res st p []"
    by (simp_all add: waiting_for_conn_def)
  from pw have eq: "mset (held (workers p)) + mset (to_hash p) +
      mset (case in_hand p of None \<Rightarrow> [] | Some f \<Rightarrow> [f]) + mset (cursor p) = mset res"
    by (simp add: pool_work_def)
  have nofin: "a \<noteq> Finish i" for i
  proof
    assume a: "a = Finish i"
    with en obtain f where h: "i < length (workers p)" "workers p ! i = Holding f"
      by (cases "workers p ! i") auto
    from in_held [OF h] have "f \<in># mset (held (workers p))" by simp
    with eq have "f \<in># mset res" by (metis union_iff)
    with rd have "needs_conn s c e f" by simp
    with en a h m nc show False by (simp add: conn_free_def)
  qed
  have noclose: "a \<noteq> Close"
  proof
    assume a: "a = Close"
    with en have "in_hand p = None" "cursor p = []" by simp_all
    with eq have "mset (held (workers p)) + mset (to_hash p) = mset res" by simp
    then have "length (held (workers p)) + length (to_hash p) = length res"
      by (metis length_append mset_append size_mset)
    with length_held [of "workers p"] sh big show False
      by (simp add: pool_shape_def)
  qed
  from pool_work_other [OF en _ pw] nofin
  have pw': "pool_work s c e res st (fire s c e p a) []" by blast
  have nc': "\<not> closed (fire s c e p a)"
    using nc noclose nofin by (cases a) (auto split: list.splits option.splits)
  have al': "dead (fire s c e p a) = None"
    using al sf nofin by (cases a) (auto split: list.splits option.splits)
  from pool_shape_fire [OF en sh] nc' al' pw' show ?thesis
    by (simp add: waiting_for_conn_def)
qed

lemma one_connection_run:
  assumes "Db_maxconnections c = 1" and "\<forall>f\<in>set res. needs_conn s c e f"
    and "2 * hash_threads c < length res" and "scan_fails e s = None"
    and "waiting_for_conn s c e res st p"
  shows "waiting_for_conn s c e res st (run_pool s c e sched p)"
  using assms
proof (induction s c e sched p rule: run_pool.induct)
  case (1 s c e sched p)
  show ?case
  proof (cases "filter (enabled s c e p) (actions p)")
    case Nil
    with "1.prems"(5) show ?thesis by (simp add: run_pool.simps [of s c e sched p])
  next
    case (Cons a as)
    let ?b = "pick sched (a # as)"
    have "?b \<in> set (a # as)" by (rule pick_in) simp
    with Cons have "?b \<in> set (filter (enabled s c e p) (actions p))" by simp
    then have en: "enabled s c e p ?b" by simp
    from one_connection_step [OF "1.prems"(1-4) en "1.prems"(5)]
    have "waiting_for_conn s c e res st (fire s c e p ?b)" .
    from "1.IH" [OF Cons "1.prems"(1-4) this] Cons show ?thesis
      by (simp add: run_pool.simps [of s c e sched p])
  qed
qed

text \<open>
  With one connection the phase cannot end when the result has more than sixteen
  filenames whose files can be read: under every schedule it ends with \<open>main\<close> waiting
  to send and all workers waiting for the connection, and no digest is stored.
\<close>

lemma one_connection_deadlock:
  assumes "Db_maxconnections c = 1" and "\<not> query_fails e s" and "scan_fails e s = None"
    and "\<forall>f\<in>set (query_result s c e (fst st)). needs_conn s c e f"
    and "2 * hash_threads c < length (query_result s c e (fst st))"
  shows "hash_phase s c e st = (Deadlocked, st)"
proof -
  let ?res = "query_result s c e (fst st)"
  let ?q = "run_pool s c e (schedule e s) (start_pool c ?res st)"
  have "waiting_for_conn s c e ?res st (start_pool c ?res st)"
    using pool_inv_start [of s c e ?res st]
    by (simp add: waiting_for_conn_def pool_inv_def pool_work_def start_pool_def)
  from one_connection_run [OF assms(1,4,5,3) this]
  have w: "waiting_for_conn s c e ?res st ?q" .
  then have "table ?q = st" "dead ?q = None" "\<not> pool_done ?q"
    by (simp_all add: waiting_for_conn_def pool_work_def pool_done_def)
  with assms(2) show ?thesis
    by (simp add: hash_phase_def Let_def pool_outcome_def)
qed

subsection \<open>Failing filenames in a phase\<close>

lemma failed_row_written:
  "fails s c e f \<Longrightarrow> filename r = f \<Longrightarrow> written s c e fs r = r"
  by (simp add: written_def stored_fails)

lemma failed_reselected_written:
  assumes "fails s c e f" and "f \<in> set (select_pending s c db)"
  shows "f \<in> set (select_pending s c (map (written s c e fs) db))"
proof -
  from assms(2) obtain r where r: "r \<in> set db" "holds (pending_cond s c) r" "filename r = f"
    by (auto simp: select_pending_def)
  with assms(1) have "written s c e fs r = r" by (simp add: failed_row_written)
  with r have "r \<in> set (map (written s c e fs) db)"
    by (metis image_eqI set_map)
  with r show ?thesis
    by (auto simp: select_pending_def)
qed

lemma failed_finish:
  assumes "fails s c e f" and "workers p ! i = Holding f"
  shows "\<exists>line. fire s c e p (Finish i) =
     p\<lparr>workers := (workers p)[i := Waiting], table := (fst (table p), snd (table p) @ [line])\<rparr>"
proof -
  from hash_one_lines [OF assms(1), of "fst (table p)" "snd (table p)"] obtain line where
    "hash_one s c e f (table p) = (fst (table p), snd (table p) @ [line])" by auto
  with assms(2) show ?thesis by auto
qed

subsection \<open>The capacity of the channel\<close>

lemma send_step:
  "(\<exists>p'. pool_step s c e p p' \<and> to_hash p' = to_hash p @ [f]) \<longleftrightarrow>
     (dead p = None \<and> in_hand p = Some f \<and> length (to_hash p) < hash_threads c)"
proof
  assume "\<exists>p'. pool_step s c e p p' \<and> to_hash p' = to_hash p @ [f]"
  then obtain a where a: "enabled s c e p a" "to_hash (fire s c e p a) = to_hash p @ [f]"
    unfolding pool_step_def by blast
  show "dead p = None \<and> in_hand p = Some f \<and> length (to_hash p) < hash_threads c"
  proof (cases a)
    case Scan
    with a show ?thesis by (cases "cursor p") (auto split: if_splits)
  next
    case Send
    with a show ?thesis by (cases "in_hand p") auto
  next
    case Close
    with a show ?thesis by simp
  next
    case (Receive i)
    with a obtain g gs where th: "to_hash p = g # gs" by (cases "to_hash p") auto
    with a Receive have "length gs = length ((g # gs) @ [f])" by simp
    then show ?thesis by simp
  next
    case (Finish i)
    with a show ?thesis by (cases "workers p ! i") auto
  next
    case (Return i)
    with a show ?thesis by simp
  qed
next
  assume r: "dead p = None \<and> in_hand p = Some f \<and> length (to_hash p) < hash_threads c"
  then have "enabled s c e p Send" by simp
  moreover from r have "to_hash (fire s c e p Send) = to_hash p @ [f]" by simp
  ultimately show "\<exists>p'. pool_step s c e p p' \<and> to_hash p' = to_hash p @ [f]"
    unfolding pool_step_def by blast
qed

lemma pool_fill:
  assumes "n \<le> hash_threads c" and "n \<le> length res" and "scan_fails e s = None"
  shows "(pool_step s c e)\<^sup>*\<^sup>* (start_pool c res st)
     ((start_pool c res st)\<lparr>cursor := drop n res, scanned := n, to_hash := take n res\<rparr>)"
  using assms
proof (induction n)
  case 0
  have "(start_pool c res st)\<lparr>cursor := drop 0 res, scanned := 0, to_hash := take 0 res\<rparr> =
      start_pool c res st"
    by (simp add: start_pool_def)
  then show ?case by simp
next
  case (Suc n)
  let ?p = "(start_pool c res st)\<lparr>cursor := drop n res, scanned := n, to_hash := take n res\<rparr>"
  let ?q = "?p\<lparr>cursor := drop (Suc n) res, scanned := Suc n, in_hand := Some (res ! n)\<rparr>"
  let ?r = "(start_pool c res st)\<lparr>cursor := drop (Suc n) res, scanned := Suc n,
      to_hash := take (Suc n) res\<rparr>"
  from Suc.prems have n: "n < length res" "n < hash_threads c" by simp_all
  from Suc have reach: "(pool_step s c e)\<^sup>*\<^sup>* (start_pool c res st) ?p" by simp
  from n(1) have dr: "drop n res = res ! n # drop (Suc n) res"
    by (simp add: Cons_nth_drop_Suc)
  have "enabled s c e ?p Scan" using dr by (simp add: start_pool_def)
  moreover have "fire s c e ?p Scan = ?q"
    using dr Suc.prems(3) by (simp add: start_pool_def)
  ultimately have 1: "pool_step s c e ?p ?q" unfolding pool_step_def by metis
  have "enabled s c e ?q Send" using n by (simp add: start_pool_def)
  moreover have "fire s c e ?q Send = ?r"
    using n(1) by (simp add: start_pool_def take_Suc_conv_app_nth)
  ultimately have 2: "pool_step s c e ?q ?r" unfolding pool_step_def by metis
  from reach 1 2 show ?case by (meson rtranclp.rtrancl_into_rtrancl)
qed

subsection \<open>The pending rows of a phase\<close>

lemma pending_query_text:
  "pending_query s c =
     ''select filename from '' @ Table_name c @ '' where '' @ cond_text (pending_cond s c)"
  by (simp add: pending_query_def query_text_def pending_cond_def split: option.splits)

text \<open>
  When the filter clause is empty or has no \<open>or\<close> outside parentheses and the result
  does not break off, the rows of the result are the rows whose hash for the side is
  null and that pass the filter, each once; a phase that completes has stored the
  digests of exactly these; after a phase, however it ended, the next selection is the
  previous one without the filenames whose digest was stored; and when the filenames of
  the table are unique, a phase leaves every row alone whose hash for the side was set.
\<close>

lemma query_result_mset:
  "rows_err e s = None \<Longrightarrow> mset (query_result s c e db) = mset (select_pending s c db)"
  by (simp add: query_result_def)

lemma query_result_set: "set (query_result s c e db) \<subseteq> set (select_pending s c db)"
proof (cases "rows_err e s")
  case None
  then show ?thesis by (simp add: query_result_def)
next
  case (Some k)
  have "set (take k (shuffle (result_order e s) (select_pending s c db))) \<subseteq>
      set (shuffle (result_order e s) (select_pending s c db))"
    by (rule set_take_subset)
  with Some show ?thesis by (simp add: query_result_def)
qed

lemma query_result_pending:
  assumes "filter_ok c" and "rows_err e s = None"
  shows "mset (query_result s c e db) =
     mset (map filename (filter (\<lambda>r. hash_col s r = None \<and> passes c r) db))"
  using assms by (simp add: query_result_mset select_pending_eq)

lemma phase_hands_pending:
  assumes "filter_ok c" and "rows_err e s = None" and "fst (hash_phase s c e (db, lg)) = Completed"
  shows "fst (snd (hash_phase s c e (db, lg))) =
     map (written s c e (map filename (filter (\<lambda>r. hash_col s r = None \<and> passes c r) db))) db"
proof -
  from query_result_pending [OF assms(1,2), of db]
  have "set (query_result s c e db) =
      set (map filename (filter (\<lambda>r. hash_col s r = None \<and> passes c r) db))"
    by (rule mset_eq_setD)
  then have "written s c e (query_result s c e db) =
      written s c e (map filename (filter (\<lambda>r. hash_col s r = None \<and> passes c r) db))"
    by (rule written_set)
  with phase_completed_result [OF assms(3)] show ?thesis
    by (simp add: hash_file_ledger)
qed

lemma phase_resumes:
  assumes "filter_ok c"
  shows "\<exists>fs. set fs \<subseteq> set (select_pending s c db) \<and>
     select_pending s c (fst (snd (hash_phase s c e (db, lg)))) =
       filter (\<lambda>f. \<not> (f \<in> set fs \<and> stored s c e f \<noteq> None)) (select_pending s c db)"
proof -
  from hash_phase_written [of s c e "(db, lg)"] obtain fs where
    fs: "set fs \<subseteq> set (query_result s c e db)"
        "fst (snd (hash_phase s c e (db, lg))) = map (written s c e fs) db" by auto
  from select_after [OF assms, of s e fs db lg] fs(2)
  have "select_pending s c (fst (snd (hash_phase s c e (db, lg)))) =
       filter (\<lambda>f. \<not> (f \<in> set fs \<and> stored s c e f \<noteq> None)) (select_pending s c db)"
    by (simp add: hash_file_ledger)
  with fs(1) query_result_set [of s c e db] show ?thesis by blast
qed

lemma phase_untouched:
  assumes "filter_ok c" and "distinct (map filename db)"
    and "i < length db" and "hash_col s (db ! i) \<noteq> None"
  shows "fst (snd (hash_phase s c e (db, lg))) ! i = db ! i"
proof -
  from hash_phase_written [of s c e "(db, lg)"] obtain fs where
    fs: "set fs \<subseteq> set (query_result s c e db)"
        "fst (snd (hash_phase s c e (db, lg))) = map (written s c e fs) db" by auto
  from fs(1) query_result_set [of s c e db] have "set fs \<subseteq> set (select_pending s c db)"
    by blast
  from untouched [OF assms(1,2) this assms(3,4), of e lg] fs(2) show ?thesis
    by (simp add: hash_file_ledger)
qed

subsection \<open>Some runs\<close>

text \<open>
  With \<open>db_maxconnections\<close> 1 and seventeen pending files that can be read, the phase
  does not end: eight filenames are with the workers, each waiting in \<open>db.Exec\<close> for
  the connection that the result holds, eight are in the channel, and \<open>main\<close> waits to
  send the seventeenth. With sixteen it completes.
\<close>

lemma one_connection_example:
  "hash_phase New (ex_conf\<lparr>Db_maxconnections := 1\<rparr>) ex_readable (ex_pending, []) =
     (Deadlocked, ex_pending, []) \<and>
   fst (hash_phase New (ex_conf\<lparr>Db_maxconnections := 1\<rparr>) ex_readable (take 16 ex_pending, [])) =
     Completed"
  by code_simp

text \<open>
  The lines of the log come in the order in which the workers write them: under the
  schedule in which a second worker is done with \<open>sub/b.txt\<close> before the first is done
  with \<open>a.txt\<close>, the line of \<open>sub/b.txt\<close> is logged first.
\<close>

lemma log_order_example:
  "snd (snd (hash_phase Old ex_conf ex_denied (ex_ledger, []))) =
     [''error opening: a.txt: permission denied'',
      ''error opening: sub/b.txt: permission denied''] \<and>
   snd (snd (hash_phase Old ex_conf (ex_denied\<lparr>schedule := (\<lambda>s. [0, 0, 8, 8, 0, 1, 1])\<rparr>)
      (ex_ledger, []))) =
     [''error opening: sub/b.txt: permission denied'',
      ''error opening: a.txt: permission denied'']"
  by code_simp

text \<open>
  When \<open>res.Scan\<close> fails for the second row, the process ends at once: the digest of the
  first filename is stored when its worker was done before, and is not when \<open>main\<close>
  went on to the second row first.
\<close>

lemma scan_panic_example:
  "hash_phase Old ex_conf (ex_env\<lparr>scan_fails := (\<lambda>s. Some 1)\<rparr>) (ex_ledger, []) =
     (Panicked (DieIf ''res.Scan''),
      [\<lparr>filename = ''a.txt'', changed = 100, size_col = 4, hash_new = Some ''04ab'',
         hash_old = Some ''04ab''\<rparr>,
       \<lparr>filename = ''sub/b.txt'', changed = 200, size_col = 0, hash_new = None, hash_old = None\<rparr>],
      []) \<and>
   hash_phase Old ex_conf (ex_env\<lparr>scan_fails := (\<lambda>s. Some 1), schedule := (\<lambda>s. [0, 0, 8])\<rparr>)
      (ex_ledger, []) =
     (Panicked (DieIf ''res.Scan''), ex_ledger, [])"
  by code_simp

text \<open>
  With the table name \<open>Files\<close> the ledger is the table \<open>Files\<close>, and the hashing phases
  ask for the table \<open>files\<close>: when there is none the run ends in \<open>die_if\<close> after
  \<open>db.Query\<close>, and when there is one the run works on it and leaves the ledger as it
  is. The empty table name is refused in the \<open>create table\<close>.
\<close>

lemma table_name_example:
  "main (ex_conf\<lparr>Table_name := ''Files''\<rparr>) ex_env ex_ledger =
     (Panicked (DieIf ''db.Query''), ex_ledger, []) \<and>
   main (ex_conf\<lparr>Table_name := ''Files''\<rparr>) (ex_env\<lparr>other_table := Some ex_stale\<rparr>) ex_ledger =
     (Completed, ex_ledger, []) \<and>
   main (ex_conf\<lparr>Table_name := []\<rparr>) ex_env [] = (Panicked (DieIf ''db.Exec''), [], [])"
  by code_simp


section \<open>The claims\<close>

text \<open>
  Claim C1. Every row whose \<open>hash_new\<close> is not null holds the lowercase hexadecimal
  SHA-256 digest of all the bytes of the file at the destination root joined with the
  row's filename, and every \<open>hash_old\<close> that is not null holds that of the file under the
  source root: a table with this property has it again when \<open>main\<close> ends, however it
  ends. The empty table has it, so every digest a first run stores is the right one.
\<close>

theorem hash_correctness:
  assumes "hash_correct New c e db" and "hash_correct Old c e db"
  shows "hash_correct New c e (fst (snd (main c e db))) \<and>
         hash_correct Old c e (fst (snd (main c e db)))"
proof -
  have inv: "hash_correct s c e (fst (snd (main c e db)))" if h: "hash_correct s c e db" for s
  proof -
    have ph: "hash_correct s c e (fst (snd (hash_phases c e (db1, []))))"
      if h1: "hash_correct s c e db1" for db1
    proof -
      from hash_phases_written [of c e "(db1, [])"] obtain fs1 fs2 where
        eq: "fst (snd (hash_phases c e (db1, []))) =
          map (written Old c e fs2) (map (written New c e fs1) db1)" by auto
      have "hash_correct s c e (map (written Old c e fs2) (map (written New c e fs1) db1))"
        by (intro hash_correct_written h1)
      with eq show ?thesis by simp
    qed
    from main_ledger [of c e db] consider
      (same) "fst (snd (main c e db)) = db"
      | (panic) p where "file_walk c e db = (Panicked p, fst (snd (main c e db)))"
      | (walked) db1 where "(if db = [] then file_walk c e db else (Completed, db)) = (Completed, db1)"
          "fst (snd (main c e db)) = db1 \<or>
           fst (snd (main c e db)) = fst (snd (hash_phases c e (db1, [])))"
      by blast
    then show ?thesis
    proof cases
      case same
      with h show ?thesis by simp
    next
      case panic
      with hash_correct_file_walk [OF h] show ?thesis by simp
    next
      case walked
      from walked(1) hash_correct_file_walk [OF h] h have "hash_correct s c e db1"
        by (auto split: if_splits)
      with walked(2) ph show ?thesis by auto
    qed
  qed
  from inv assms show ?thesis by blast
qed

text \<open>Claim C1 on the example: a run over the table a first run left.\<close>

theorem hash_correctness_witness:
  "hash_correct New ex_conf ex_env ex_ledger \<and> hash_correct Old ex_conf ex_env ex_ledger \<and>
   hash_correct New ex_conf ex_env (fst (snd (main ex_conf ex_env ex_ledger))) \<and>
   hash_correct Old ex_conf ex_env (fst (snd (main ex_conf ex_env ex_ledger)))"
proof -
  have n: "hash_correct New ex_conf ex_env ex_ledger" by code_simp
  have o: "hash_correct Old ex_conf ex_env ex_ledger" by code_simp
  from n o hash_correctness [OF n o] show ?thesis by simp
qed

text \<open>
  Claim C3. When the table has rows at startup, the walk is skipped: the run does not
  depend on the destination tree, and the filenames of the table are the same, in the
  same order, after the run and after a second run. So no row is added and filenames
  that were unique stay unique.
\<close>

theorem no_duplication:
  assumes "db \<noteq> []"
  shows "map filename (fst (snd (main c e db))) = map filename db \<and>
         main c (e\<lparr>fs_tree := t\<rparr>) db = main c e db \<and>
         map filename (fst (snd (main c e' (fst (snd (main c e db)))))) = map filename db \<and>
         (distinct (map filename db) \<longrightarrow>
            distinct (map filename (fst (snd (main c e' (fst (snd (main c e db))))))))"
proof -
  have 1: "map filename (fst (snd (main c e db))) = map filename db"
    by (rule main_filenames [OF assms])
  then have ne: "fst (snd (main c e db)) \<noteq> []" using assms by auto
  have 2: "map filename (fst (snd (main c e' (fst (snd (main c e db)))))) = map filename db"
    using main_filenames [OF ne, of c e'] 1 by simp
  have 3: "main c (e\<lparr>fs_tree := t\<rparr>) db = main c e db"
    by (simp add: main_nonempty [OF assms] hash_phases_tree split: option.splits)
  from 1 2 3 show ?thesis by simp
qed

text \<open>Claim C3 on the example table of two rows.\<close>

theorem no_duplication_witness:
  "ex_ledger \<noteq> [] \<and>
   map filename (fst (snd (main ex_conf ex_env ex_ledger))) = [''a.txt'', ''sub/b.txt'']"
proof -
  have ne: "ex_ledger \<noteq> []" by (simp add: ex_ledger_def)
  from ne no_duplication [OF ne, of ex_conf ex_env] show ?thesis
    by (simp add: ex_ledger_def)
qed

text \<open>
  Claim C4. A filename that fails in a hashing phase (the file cannot be opened, cannot
  be read to its end, or the update returns an error) adds one line to the log and
  leaves the table as it is; the worker goes on with the filenames after it, and in the
  pool the worker that held the filename is waiting at the channel again; when the
  filenames of the phase are done, and at the end of the phase however it ends, the rows
  of that filename are still what they were, so a row that was selected as pending is
  selected again. The run is not aborted: a phase panics only in \<open>die_if\<close> after
  \<open>db.Query\<close> or \<open>res.Scan\<close>, never for a filename, and when these two do not fail and
  the workers can get a connection beside that of the result (\<open>db_maxconnections\<close> is
  not 1), the phase completes and has gone through all the filenames of the result.
\<close>

theorem item_failure_skipped:
  assumes "fails s c e f"
  shows "(\<exists>line. hash_one s c e f (db, lg) = (db, lg @ [line]) \<and>
           ((\<exists>err. line = ''error opening: '' @ f @ '': '' @ err) \<or>
            (\<exists>err. line = ''error reading from '' @ f @ '': '' @ err) \<or>
            (\<exists>err. line = ''error adding hash to DB: '' @ err))) \<and>
         hash_file s c e (f # rest) (db, lg) = hash_file s c e rest (db, snd (hash_one s c e f (db, lg))) \<and>
         (\<forall>i<length db. filename (db ! i) = f \<longrightarrow>
            fst (hash_file s c e queue (db, lg)) ! i = db ! i) \<and>
         (f \<in> set (select_pending s c db) \<longrightarrow>
            f \<in> set (select_pending s c (fst (hash_file s c e queue (db, lg))))) \<and>
         (workers p ! w = Holding f \<longrightarrow>
            (\<exists>line. fire s c e p (Finish w) =
               p\<lparr>workers := (workers p)[w := Waiting],
                  table := (fst (table p), snd (table p) @ [line])\<rparr>)) \<and>
         (\<forall>i<length db. filename (db ! i) = f \<longrightarrow>
            fst (snd (hash_phase s c e (db, lg))) ! i = db ! i) \<and>
         (f \<in> set (select_pending s c db) \<longrightarrow>
            f \<in> set (select_pending s c (fst (snd (hash_phase s c e (db, lg)))))) \<and>
         (\<forall>pn. fst (hash_phase s c e (db, lg)) = Panicked pn \<longrightarrow>
            (query_fails e s \<and> pn = DieIf ''db.Query'') \<or>
            (scan_fails e s \<noteq> None \<and> pn = DieIf ''res.Scan'')) \<and>
         (Db_maxconnections c \<noteq> 1 \<and> \<not> query_fails e s \<and> scan_fails e s = None \<longrightarrow>
            fst (hash_phase s c e (db, lg)) = Completed \<and>
            fst (snd (hash_phase s c e (db, lg))) =
              fst (hash_file s c e (query_result s c e db) (db, lg)))"
proof -
  from hash_one_lines [OF assms] obtain line where
    l: "hash_one s c e f (db, lg) = (db, lg @ [line])" by blast
  then have 2: "hash_file s c e (f # rest) (db, lg) =
      hash_file s c e rest (db, snd (hash_one s c e f (db, lg)))" by simp
  from hash_phase_written [of s c e "(db, lg)"] obtain fs where
    fs: "fst (snd (hash_phase s c e (db, lg))) = map (written s c e fs) db" by auto
  have 6: "\<forall>i<length db. filename (db ! i) = f \<longrightarrow>
      fst (snd (hash_phase s c e (db, lg))) ! i = db ! i"
    by (simp add: fs failed_row_written [OF assms])
  have 7: "f \<in> set (select_pending s c db) \<longrightarrow>
      f \<in> set (select_pending s c (fst (snd (hash_phase s c e (db, lg)))))"
    by (simp add: fs failed_reselected_written [OF assms])
  have 8: "\<forall>pn. fst (hash_phase s c e (db, lg)) = Panicked pn \<longrightarrow>
      (query_fails e s \<and> pn = DieIf ''db.Query'') \<or>
      (scan_fails e s \<noteq> None \<and> pn = DieIf ''res.Scan'')"
    using phase_panic [of s c e "(db, lg)"] by blast
  have 9: "fst (hash_phase s c e (db, lg)) = Completed \<and>
      fst (snd (hash_phase s c e (db, lg))) =
        fst (hash_file s c e (query_result s c e db) (db, lg))"
    if "Db_maxconnections c \<noteq> 1 \<and> \<not> query_fails e s \<and> scan_fails e s = None"
  proof -
    from that phase_completes [of c e s "(db, lg)"]
    have "fst (hash_phase s c e (db, lg)) = Completed" by simp
    with phase_completed_result [OF this] show ?thesis by simp
  qed
  from hash_one_lines [OF assms] 2 failed_rows_kept [OF assms] failed_reselected [OF assms]
    failed_finish [OF assms] 6 7 8 9
  show ?thesis by blast
qed


text \<open>Claim C4 on the example: \<open>sub/b.txt\<close> cannot be read under the source root.\<close>

theorem item_failure_skipped_witness:
  "fails Old ex_conf ex_env ''sub/b.txt'' \<and>
   fst (hash_file Old ex_conf ex_env [''a.txt'', ''sub/b.txt''] (ex_ledger, [])) ! 1 = ex_ledger ! 1 \<and>
   fst (snd (hash_phase Old ex_conf ex_env (ex_ledger, []))) ! 1 = ex_ledger ! 1 \<and>
   fst (hash_phase Old ex_conf ex_env (ex_ledger, [])) = Completed"
proof -
  have f: "fails Old ex_conf ex_env ''sub/b.txt''" by code_simp
  have q: "Db_maxconnections ex_conf \<noteq> 1 \<and> \<not> query_fails ex_env Old \<and> scan_fails ex_env Old = None"
    by (simp add: ex_conf_def ex_env_def)
  have len: "1 < length ex_ledger" "filename (ex_ledger ! 1) = ''sub/b.txt''"
    by (simp_all add: ex_ledger_def)
  note t = item_failure_skipped [OF f, of ex_ledger "[]" "[]" "[''a.txt'', ''sub/b.txt'']"
      "start_pool ex_conf [] (ex_ledger, [])" 0]
  from t have 1: "i < length ex_ledger \<Longrightarrow> filename (ex_ledger ! i) = ''sub/b.txt'' \<Longrightarrow>
      fst (hash_file Old ex_conf ex_env [''a.txt'', ''sub/b.txt''] (ex_ledger, [])) ! i = ex_ledger ! i"
    for i by blast
  from t have 2: "i < length ex_ledger \<Longrightarrow> filename (ex_ledger ! i) = ''sub/b.txt'' \<Longrightarrow>
      fst (snd (hash_phase Old ex_conf ex_env (ex_ledger, []))) ! i = ex_ledger ! i"
    for i by blast
  from t q have 3: "fst (hash_phase Old ex_conf ex_env (ex_ledger, [])) = Completed"
    by blast
  from f 1 [OF len] 2 [OF len] 3 show ?thesis by simp
qed

text \<open>
  Claim C5 fails on the code for a filter with an \<open>or\<close> outside parentheses. With the
  filter \<open>size > 100 or size < 10\<close> the text of the query is
  \<open>... where hash_new is null and size > 100 or size < 10\<close>, in which \<open>and\<close> binds
  tighter than \<open>or\<close>: the row of \<open>a.txt\<close>, whose \<open>hash_new\<close> is already set, is in the
  result and is handed to a worker, as the line that the worker logs for it shows when
  the file cannot be opened. The claim also fails when the result of the query breaks
  off: \<open>main\<close> leaves its loop without calling \<open>res.Err\<close>, and the phase completes
  with the pending row \<open>sub/b.txt\<close> not handed to any worker. (For a filter without
  such an \<open>or\<close> and a result that does not break off, lemmas \<open>query_result_pending\<close>,
  \<open>phase_hands_pending\<close>, \<open>phase_resumes\<close> and \<open>phase_untouched\<close> above give what the
  claim describes.)
\<close>

theorem pending_selection_or_filter:
  "pending_query New ex_or_conf =
     ''select filename from files where hash_new is null and size > 100 or size < 10'' \<and>
   hash_new (ex_ledger ! 0) = Some ''04ab'' \<and>
   query_result New ex_or_conf ex_env ex_ledger = [''a.txt'', ''sub/b.txt''] \<and>
   hash_phase New ex_or_conf ex_denied (ex_ledger, []) =
     (Completed, ex_ledger,
      [''error opening: a.txt: permission denied'',
       ''error opening: sub/b.txt: permission denied'']) \<and>
   select_pending New ex_conf ex_ledger = [''sub/b.txt''] \<and>
   hash_phase New ex_conf (ex_env\<lparr>rows_err := (\<lambda>s. Some 0)\<rparr>) (ex_ledger, []) =
     (Completed, ex_ledger, [])"
  by code_simp

text \<open>
  Claim C6 as stated fails. The update has no test of the column: in a run with the
  filter \<open>size > 100 or size < 10\<close> the digest that the row of \<open>a.txt\<close> already had is
  replaced.
\<close>

theorem guarded_update_counterexample:
  "hash_new (ex_stale ! 0) = Some ''07ab'' \<and>
   hash_new (fst (snd (main ex_or_conf ex_env ex_stale)) ! 0) = Some ''04ab''"
  by code_simp

text \<open>
  Claim C6, amended. A hash write is an update keyed by filename: when the digest of
  the worker's filename is stored, every row with that filename gets it in the column
  of the phase, whatever the column held, and the other rows stay as they are; the
  value written is never null. And no operation of the run sets a hash back to null:
  a \<open>hash_new\<close> or \<open>hash_old\<close> that is set at startup is set when \<open>main\<close> ends.
\<close>

theorem hash_never_reset:
  "fst (hash_one s c e f (db, lg)) =
     (case stored s c e f of
        None \<Rightarrow> db
      | Some h \<Rightarrow> map (\<lambda>r. if filename r = f then set_col s h r else r) db) \<and>
   hash_col s (set_col s h r) = Some h \<and>
   (\<forall>i<length db.
      (hash_new (db ! i) \<noteq> None \<longrightarrow> hash_new (fst (snd (main c e db)) ! i) \<noteq> None) \<and>
      (hash_old (db ! i) \<noteq> None \<longrightarrow> hash_old (fst (snd (main c e db)) ! i) \<noteq> None))"
proof -
  have one: "fst (hash_one s c e f (db, lg)) =
     (case stored s c e f of
        None \<Rightarrow> db
      | Some h \<Rightarrow> map (\<lambda>r. if filename r = f then set_col s h r else r) db)"
  proof (cases "stored s c e f")
    case None
    then show ?thesis by (simp add: hash_one_ledger written_none)
  next
    case (Some h)
    then show ?thesis by (simp add: hash_one_ledger written_some update_hash_def)
  qed
  have keep: "hash_col s' (fst (snd (main c e db)) ! i) \<noteq> None"
    if "i < length db" and "hash_col s' (db ! i) \<noteq> None" for i s'
  proof -
    from that have "db \<noteq> []" by auto
    from main_written [OF this] obtain fs1 fs2 where
      "fst (snd (main c e db)) = map (written Old c e fs2) (map (written New c e fs1) db)"
      by blast
    with that show ?thesis by (simp add: written_keeps)
  qed
  have val: "hash_col s (set_col s h r) = Some h" by (simp add: hash_col_set_col)
  from keep [of _ New] keep [of _ Old] have
    "\<forall>i<length db.
      (hash_new (db ! i) \<noteq> None \<longrightarrow> hash_new (fst (snd (main c e db)) ! i) \<noteq> None) \<and>
      (hash_old (db ! i) \<noteq> None \<longrightarrow> hash_old (fst (snd (main c e db)) ! i) \<noteq> None)"
    by (simp add: hash_col_def)
  with one val show ?thesis by blast
qed

text \<open>Claim C6, amended, on the example table.\<close>

theorem hash_never_reset_witness:
  "hash_new (ex_ledger ! 0) \<noteq> None \<and>
   hash_new (fst (snd (main ex_conf ex_env ex_ledger)) ! 0) \<noteq> None"
  using hash_never_reset [of New ex_conf ex_env "''a.txt''" ex_ledger "[]" "''00''" "ex_ledger ! 0"]
  by (simp add: ex_ledger_def)

text \<open>
  Claim C7 as stated fails. A step of the enumeration that fails need not leave the
  table as it was: when the names of the directory \<open>locked\<close> cannot be listed, the
  callback is entered with the error and returns nil, the walk goes on without the
  file in that directory, the transaction is committed, and the table has the row of
  \<open>a.txt\<close>.
\<close>

theorem enumeration_atomic_counterexample:
  "visit ex_conf ex_env ''/new'' ''/new/locked'' (Dir False [(''c.txt'', Reg 7 300)])
     (lstat (Dir False [(''c.txt'', Reg 7 300)])) True ([], []) = Inr (ErrNil, ([], [])) \<and>
   walk_calls ex_conf (ex_env\<lparr>fs_tree := ex_locked_tree\<rparr>) =
     ([Begin, Prepare,
       CopyRow \<lparr>filename = ''a.txt'', changed = 100, size_col = 4, hash_new = None, hash_old = None\<rparr>,
       CopyEnd, CloseStmt, Commit], None) \<and>
   map filename (fst (snd (main ex_conf (ex_env\<lparr>fs_tree := ex_locked_tree\<rparr>) []))) = [''a.txt'']"
  by code_simp

text \<open>
  Claim C7, amended. The rows of the walk are written in one transaction that is
  committed after the last walker is done. Whatever call the run has got to, and
  whatever rows the walkers have given to the statement, the committed table is the
  table at the start unless the commit has returned without error. When a call of the
  enumeration on the database returns an error (\<open>db.Begin\<close>, \<open>txn.Prepare\<close>, the
  \<open>stmt.Exec\<close> of the end, \<open>stmt.Close\<close>, \<open>txn.Commit\<close>) or a walker panics (on the
  \<open>stmt.Exec\<close> of a row, or on a nil file info), the run ends there and the table is as
  it was. Otherwise all the rows that the walkers staged are added, in some order. A
  directory that cannot be listed is no such failure. For a run on the empty table, the
  filenames of the table at the end are none or those of all the staged rows.
\<close>

theorem enumeration_atomic:
  "(k < length (fst (walk_calls c e)) \<or> snd (walk_calls c e) \<noteq> None \<longrightarrow>
      committed (fold db_apply (take k (fst (walk_calls c e))) (db_start db)) = db) \<and>
   committed (fold db_apply (Begin # Prepare # map CopyRow copied) (db_start db)) = db \<and>
   (begin_fails e \<or> prepare_fails e \<or> flush_fails e \<or> close_fails e \<or> commit_fails e \<or>
    (\<exists>p. spawn_walkers c e [(New_path c, fs_tree e)] [] = Inl p) \<longrightarrow>
      (\<exists>p. file_walk c e db = (Panicked p, db))) \<and>
   (\<not> begin_fails e \<and> \<not> prepare_fails e \<and> \<not> flush_fails e \<and> \<not> close_fails e \<and>
    \<not> commit_fails e \<and> spawn_walkers c e [(New_path c, fs_tree e)] [] = Inr rows \<longrightarrow>
      (\<exists>rows'. file_walk c e db = (Completed, db @ rows') \<and> mset rows' = mset rows)) \<and>
   (fst (snd (main c e [])) = [] \<or>
    (\<exists>rows. spawn_walkers c e [(New_path c, fs_tree e)] [] = Inr rows \<and>
       mset (map filename (fst (snd (main c e [])))) = mset (map filename rows)))"
proof -
  have 1: "k < length (fst (walk_calls c e)) \<or> snd (walk_calls c e) \<noteq> None \<longrightarrow>
      committed (fold db_apply (take k (fst (walk_calls c e))) (db_start db)) = db"
    using committed_before_commit [of k c e db] by blast
  have 0: "committed (fold db_apply (Begin # Prepare # map CopyRow copied) (db_start db)) = db"
    by (rule copied_keeps)
  have 2: "\<exists>p. file_walk c e db = (Panicked p, db)"
    if f: "begin_fails e \<or> prepare_fails e \<or> flush_fails e \<or> close_fails e \<or> commit_fails e \<or>
      (\<exists>p. spawn_walkers c e [(New_path c, fs_tree e)] [] = Inl p)"
  proof (cases "snd (walk_calls c e)")
    case None
    from file_walk_completed [OF None, of db] f show ?thesis by auto
  next
    case (Some p)
    from file_walk_panicked [OF Some, of db] show ?thesis by blast
  qed
  have 3: "\<exists>rows'. file_walk c e db = (Completed, db @ rows') \<and> mset rows' = mset rows"
    if ok: "\<not> begin_fails e \<and> \<not> prepare_fails e \<and> \<not> flush_fails e \<and> \<not> close_fails e \<and>
      \<not> commit_fails e \<and> spawn_walkers c e [(New_path c, fs_tree e)] [] = Inr rows"
  proof -
    from ok have "snd (walk_calls c e) = None" by (simp add: walk_calls_def Let_def)
    from file_walk_completed [OF this, of db] ok
    have "file_walk c e db = (Completed, db @ shuffle (stage_order e) rows)" by auto
    moreover have "mset (shuffle (stage_order e) rows) = mset rows" by simp
    ultimately show ?thesis by blast
  qed
  have 4: "fst (snd (main c e [])) = [] \<or>
    (\<exists>rows. spawn_walkers c e [(New_path c, fs_tree e)] [] = Inr rows \<and>
       mset (map filename (fst (snd (main c e [])))) = mset (map filename rows))"
  proof -
    from main_ledger [of c e "[]"] consider
      (same) "fst (snd (main c e [])) = []"
      | (panic) p where "file_walk c e [] = (Panicked p, fst (snd (main c e [])))"
      | (walked) db1 where "file_walk c e [] = (Completed, db1)"
          "fst (snd (main c e [])) = db1 \<or>
           fst (snd (main c e [])) = fst (snd (hash_phases c e (db1, [])))"
      by auto
    then show ?thesis
    proof cases
      case same
      then show ?thesis by simp
    next
      case panic
      from file_walk_cases [OF panic] show ?thesis by simp
    next
      case walked
      from file_walk_cases [OF walked(1)] obtain rows where
        sw: "spawn_walkers c e [(New_path c, fs_tree e)] [] = Inr rows" and
        d: "db1 = shuffle (stage_order e) rows" by auto
      from hash_phases_written [of c e "(db1, [])"]
      have "map filename (fst (snd (hash_phases c e (db1, [])))) = map filename db1" by auto
      with walked(2) have "map filename (fst (snd (main c e []))) = map filename db1" by auto
      with d have "mset (map filename (fst (snd (main c e [])))) = mset (map filename rows)"
        by simp
      with sw show ?thesis by blast
    qed
  qed
  from 0 1 2 3 4 show ?thesis by blast
qed

text \<open>
  Claim C7, amended, on the example tree, with a table that has rows already: after
  three calls nothing is committed, the whole walk adds its rows behind the rows of
  the table, and with a failing commit the table is as it was.
\<close>

theorem enumeration_atomic_witness:
  "3 < length (fst (walk_calls ex_conf ex_env)) \<and>
   committed (fold db_apply (take 3 (fst (walk_calls ex_conf ex_env))) (db_start ex_ledger)) =
     ex_ledger \<and>
   fst (file_walk ex_conf ex_env ex_ledger) = Completed \<and>
   take 2 (snd (file_walk ex_conf ex_env ex_ledger)) = ex_ledger \<and>
   fst (file_walk ex_conf (ex_env\<lparr>commit_fails := True\<rparr>) ex_ledger) \<noteq> Completed \<and>
   snd (file_walk ex_conf (ex_env\<lparr>commit_fails := True\<rparr>) ex_ledger) = ex_ledger"
proof -
  have k: "3 < length (fst (walk_calls ex_conf ex_env))" by code_simp
  have ok: "\<not> begin_fails ex_env \<and> \<not> prepare_fails ex_env \<and> \<not> flush_fails ex_env \<and>
      \<not> close_fails ex_env \<and> \<not> commit_fails ex_env \<and>
      spawn_walkers ex_conf ex_env [(New_path ex_conf, fs_tree ex_env)] [] =
        Inr [\<lparr>filename = ''a.txt'', changed = 100, size_col = 4, hash_new = None, hash_old = None\<rparr>,
             \<lparr>filename = ''sub/b.txt'', changed = 200, size_col = 0, hash_new = None, hash_old = None\<rparr>]"
    by code_simp
  have bad: "commit_fails (ex_env\<lparr>commit_fails := True\<rparr>)" by simp
  note t = enumeration_atomic [of 3 ex_conf ex_env ex_ledger "[]"
      "[\<lparr>filename = ''a.txt'', changed = 100, size_col = 4, hash_new = None, hash_old = None\<rparr>,
        \<lparr>filename = ''sub/b.txt'', changed = 200, size_col = 0, hash_new = None, hash_old = None\<rparr>]"]
  from t k have a: "committed (fold db_apply (take 3 (fst (walk_calls ex_conf ex_env)))
     (db_start ex_ledger)) = ex_ledger"
    by blast
  from t ok obtain rows' where "file_walk ex_conf ex_env ex_ledger = (Completed, ex_ledger @ rows')"
    by blast
  then have b: "fst (file_walk ex_conf ex_env ex_ledger) = Completed"
    "take 2 (snd (file_walk ex_conf ex_env ex_ledger)) = ex_ledger"
    by (simp_all add: ex_ledger_def)
  from bad enumeration_atomic [of 0 ex_conf "ex_env\<lparr>commit_fails := True\<rparr>" ex_ledger "[]" "[]"]
  obtain p where "file_walk ex_conf (ex_env\<lparr>commit_fails := True\<rparr>) ex_ledger = (Panicked p, ex_ledger)"
    by blast
  then have c: "fst (file_walk ex_conf (ex_env\<lparr>commit_fails := True\<rparr>) ex_ledger) \<noteq> Completed"
    "snd (file_walk ex_conf (ex_env\<lparr>commit_fails := True\<rparr>) ex_ledger) = ex_ledger"
    by simp_all
  from k a b c show ?thesis by simp
qed

text \<open>
  Claim C2 fails on the code for a destination root written with a slash at its end.
  \<open>filepath.Walk\<close> hands over cleaned paths such as \<open>/new/a.txt\<close>, the prefix that
  \<open>walk_dir\<close> takes off is \<open>conf.New_path + "/"\<close>, here \<open>/new//\<close>, and the rows keep the
  whole path as filename; the hashing phases, which open \<open>conf.New_path + "/" + filename\<close>,
  then find none of the files. (For a clean root, lemma \<open>enumeration_complete\<close> above
  gives the rows the claim describes.)
\<close>

theorem enumeration_rows_trailing_slash:
  "file_walk (ex_conf\<lparr>New_path := ''/new/''\<rparr>) ex_env [] =
     (Completed,
      [\<lparr>filename = ''/new/a.txt'', changed = 100, size_col = 4, hash_new = None, hash_old = None\<rparr>,
       \<lparr>filename = ''/new/sub/b.txt'', changed = 200, size_col = 0, hash_new = None, hash_old = None\<rparr>]) \<and>
   main (ex_conf\<lparr>New_path := ''/new/''\<rparr>) ex_env [] =
     (Completed,
      [\<lparr>filename = ''/new/a.txt'', changed = 100, size_col = 4, hash_new = None, hash_old = None\<rparr>,
       \<lparr>filename = ''/new/sub/b.txt'', changed = 200, size_col = 0, hash_new = None, hash_old = None\<rparr>],
      [''error opening: /new/a.txt: no such file or directory'',
       ''error opening: /new/sub/b.txt: no such file or directory'',
       ''error opening: /new/a.txt: no such file or directory'',
       ''error opening: /new/sub/b.txt: no such file or directory''])"
  by code_simp

text \<open>
  Claim C8 as stated fails in one point: the size of the pool is not configurable.
  With the connection settings of the configuration changed, a phase still starts
  eight workers.
\<close>

theorem pool_size_counterexample:
  "length (workers (start_pool (ex_conf\<lparr>Db_maxconnections := 64, Db_idleconnections := 32\<rparr>)
      [''a.txt''] (ex_ledger, []))) = 8"
  by (simp add: start_pool_def hash_threads_def)

text \<open>
  Claim C8, amended. Each hashing phase runs a pool of fixed size 8, a constant of the
  program, and the workers drain one shared channel whose capacity is the size of the
  pool. In every state a phase can reach, the number of workers is \<open>hash_threads\<close>,
  which is 8, and the channel holds at most \<open>hash_threads\<close> filenames; \<open>main\<close> can put
  the filename it has scanned into the channel exactly when the channel holds fewer
  than \<open>hash_threads\<close> filenames; and when the result has that many rows, a state is
  reached in which the channel holds \<open>hash_threads\<close> filenames, none of them taken by a
  worker yet.
\<close>

theorem pool_size:
  assumes "(pool_step s c e)\<^sup>*\<^sup>* (start_pool c res st) p"
  shows "hash_threads c = 8 \<and> length (workers p) = hash_threads c \<and>
         length (to_hash p) \<le> hash_threads c \<and>
         ((\<exists>p'. pool_step s c e p p' \<and> to_hash p' = to_hash p @ [f]) \<longleftrightarrow>
            dead p = None \<and> in_hand p = Some f \<and> length (to_hash p) < hash_threads c) \<and>
         (hash_threads c \<le> length res \<and> scan_fails e s = None \<longrightarrow>
            (\<exists>q. (pool_step s c e)\<^sup>*\<^sup>* (start_pool c res st) q \<and>
                 workers q = replicate (hash_threads c) Waiting \<and>
                 to_hash q = take (hash_threads c) res))"
proof -
  from pool_inv_reachable [OF assms] have
    1: "hash_threads c = 8 \<and> length (workers p) = hash_threads c \<and>
        length (to_hash p) \<le> hash_threads c"
    by (simp add: pool_inv_def pool_shape_def hash_threads_def)
  have 2: "\<exists>q. (pool_step s c e)\<^sup>*\<^sup>* (start_pool c res st) q \<and>
      workers q = replicate (hash_threads c) Waiting \<and> to_hash q = take (hash_threads c) res"
    if "hash_threads c \<le> length res \<and> scan_fails e s = None"
  proof -
    let ?q = "(start_pool c res st)\<lparr>cursor := drop (hash_threads c) res,
      scanned := hash_threads c, to_hash := take (hash_threads c) res\<rparr>"
    from that pool_fill [of "hash_threads c" c res e s st]
    have "(pool_step s c e)\<^sup>*\<^sup>* (start_pool c res st) ?q" by simp
    moreover have "workers ?q = replicate (hash_threads c) Waiting \<and>
        to_hash ?q = take (hash_threads c) res"
      by (simp add: start_pool_def)
    ultimately show ?thesis by blast
  qed
  from 1 2 send_step [of s c e p f] show ?thesis by blast
qed

text \<open>
  Claim C8, amended, on the example of seventeen rows: eight workers, and a state with
  the first eight filenames in the channel.
\<close>

theorem pool_size_witness:
  "hash_threads ex_conf \<le> length ex_names \<and> scan_fails ex_env New = None \<and>
   length (workers (start_pool ex_conf ex_names (ex_pending, []))) = 8 \<and>
   (\<exists>q. (pool_step New ex_conf ex_env)\<^sup>*\<^sup>* (start_pool ex_conf ex_names (ex_pending, [])) q \<and>
        to_hash q = [''f01'', ''f02'', ''f03'', ''f04'', ''f05'', ''f06'', ''f07'', ''f08''])"
proof -
  have h: "hash_threads ex_conf \<le> length ex_names \<and> scan_fails ex_env New = None"
    by (simp add: hash_threads_def ex_names_def ex_env_def)
  have r: "(pool_step New ex_conf ex_env)\<^sup>*\<^sup>* (start_pool ex_conf ex_names (ex_pending, []))
      (start_pool ex_conf ex_names (ex_pending, []))" by simp
  note t = pool_size [OF r, of "''f01''"]
  from t have w: "length (workers (start_pool ex_conf ex_names (ex_pending, []))) = 8" by simp
  from t h obtain q where
    "(pool_step New ex_conf ex_env)\<^sup>*\<^sup>* (start_pool ex_conf ex_names (ex_pending, [])) q"
    "to_hash q = take (hash_threads ex_conf) ex_names" by blast
  then have "\<exists>q. (pool_step New ex_conf ex_env)\<^sup>*\<^sup>* (start_pool ex_conf ex_names (ex_pending, [])) q \<and>
        to_hash q = [''f01'', ''f02'', ''f03'', ''f04'', ''f05'', ''f06'', ''f07'', ''f08'']"
    by (auto simp: hash_threads_def ex_names_def)
  with h w show ?thesis by simp
qed

text \<open>
  Claim C9 as stated fails. A directory that cannot be listed is passed over and the
  walk completes, so its error is not fatal for the transaction; and when \<open>Lstat\<close> fails
  the callback is entered with a nil file info, calls \<open>info.Mode()\<close> on it and the process
  panics on the nil pointer.
\<close>

theorem unreadable_directory_counterexample:
  "file_walk ex_conf (ex_env\<lparr>fs_tree := ex_locked_tree\<rparr>) [] =
     (Completed,
      [\<lparr>filename = ''a.txt'', changed = 100, size_col = 4, hash_new = None, hash_old = None\<rparr>]) \<and>
   visit ex_conf ex_env ''/new'' ''/new/gone'' Vanished None True ([], []) = Inl NilPointer \<and>
   file_walk ex_conf (ex_env\<lparr>fs_tree := ex_gone_tree\<rparr>) [] = (Panicked NilPointer, [])"
  by code_simp

text \<open>
  Claim C9, amended. For every directory whose names cannot be listed (the callback is
  entered with a non-nil error and the file info of the directory), the enumerator
  treats the directory as empty and drops the error: the callback returns nil, stages
  no row and queues nothing, the walk goes on with what follows, and a walker started
  on such a directory leaves the transaction as it is.
\<close>

theorem unreadable_directory_skipped:
  "visit c e dir path (Dir False entries) (lstat (Dir False entries)) True st = Inr (ErrNil, st) \<and>
   walk (visit c e dir) path (Dir False entries) st = Inr (ErrNil, st) \<and>
   walk_dir c e dir (Dir False entries) st = Inr st \<and>
   spawn_walkers c e ((dir, Dir False entries) # to_walk) rows = spawn_walkers c e to_walk rows"
proof -
  have v: "visit c e dir path (Dir False entries) (lstat (Dir False entries)) True st = Inr (ErrNil, st)"
    for path
    by (simp add: visit_def visit_file_def lstat_def)
  have w: "walk (visit c e dir) path (Dir False entries) st = Inr (ErrNil, st)" for path st
    by (simp add: visit_def visit_file_def lstat_def)
  have d: "walk_dir c e dir (Dir False entries) st = Inr st" for st
    by (simp add: walk_dir_def filepath_Walk_def w lstat_def del: walk.simps)
  from v w d show ?thesis by simp
qed

text \<open>
  Claim C10. The table name is quoted as an identifier in the \<open>create table\<close>, the row
  count and the \<open>COPY\<close> text, and put as it is into the pending select and the hash
  update. So for every table name that needs quoting (an upper case letter, a reserved
  word, or a character outside plain identifiers) there is no table that all five
  kinds of query name.
\<close>

theorem table_quoting:
  "query_text c CreateTable =
     ''create table if not exists '' @ QuoteIdentifier (Table_name c) @
     '' ( filename text, changed timestamp, size bigint, hash_new text, hash_old text )'' \<and>
   query_text c RowCount = ''select count(*) from '' @ QuoteIdentifier (Table_name c) \<and>
   query_text c BulkInsert =
     ''COPY '' @ QuoteIdentifier (Table_name c) @ '' ('' @ QuoteIdentifier ''filename'' @ '', '' @
       QuoteIdentifier ''size'' @ '', '' @ QuoteIdentifier ''changed'' @ '') FROM STDIN'' \<and>
   query_text c (SelectPending s) =
     ''select filename from '' @ Table_name c @ '' where '' @ col_name s @ '' is null'' \<and>
   query_text c (UpdateHash s) =
     ''update '' @ Table_name c @ '' set '' @ col_name s @ '' = $2 where filename = $1'' \<and>
   (needs_quoting reserved (Table_name c) \<longrightarrow>
      \<not> (\<exists>t. \<forall>k. table_ref reserved c k = Some t))"
proof -
  have "\<not> (\<exists>t. \<forall>k. table_ref reserved c k = Some t)" if nq: "needs_quoting reserved (Table_name c)"
  proof
    assume "\<exists>t. \<forall>k. table_ref reserved c k = Some t"
    then obtain t where all: "\<And>k. table_ref reserved c k = Some t" by blast
    let ?n = "Table_name c"
    from all [of RowCount] have q: "pg_ident reserved (QuoteIdentifier ?n) = Some t"
      by (simp add: table_ref_def table_text_def)
    from all [of "SelectPending New"] have u: "pg_ident reserved ?n = Some t"
      by (simp add: table_ref_def table_text_def)
    have pl: "plain ?n \<and> \<not> reserved (map to_lower ?n) \<and> t = map to_lower ?n"
    proof (cases "?n")
      case Nil
      with u show ?thesis by (simp add: pg_ident_def)
    next
      case (Cons ch rest)
      show ?thesis
      proof (cases "ch = dquote")
        case True
        from u Cons True have "unquote rest = Some t"
          by (auto simp: pg_ident_def split: option.splits if_splits)
        from unquote_shorter [OF this] Cons True have sh: "length t < length ?n" "nul \<notin> set ?n"
          by (auto simp: dquote_def nul_def)
        with q have "t = ?n" by (simp add: pg_ident_quoted_plain split: if_splits)
        with sh show ?thesis by simp
      next
        case False
        with u Cons show ?thesis by (auto simp: pg_ident_def split: if_splits)
      qed
    qed
    with nq have up: "list_ex is_upper ?n" by (simp add: needs_quoting_def)
    from pl have "nul \<notin> set ?n" by (simp add: plain_no_nul)
    with q have "t = ?n" by (simp add: pg_ident_quoted_plain split: if_splits)
    with pl map_to_lower_upper [OF up] show False by simp
  qed
  then show ?thesis
    by (simp add: query_text_def copy_text)
qed

text \<open>
  Claim C10 on the table name \<open>Files\<close>: the quoted text names \<open>Files\<close>, the plain text
  \<open>files\<close>.
\<close>

theorem table_quoting_witness:
  "needs_quoting ex_reserved ''Files'' \<and>
   table_ref ex_reserved (ex_conf\<lparr>Table_name := ''Files''\<rparr>) RowCount = Some ''Files'' \<and>
   table_ref ex_reserved (ex_conf\<lparr>Table_name := ''Files''\<rparr>) (UpdateHash New) = Some ''files''"
proof -
  have nq: "needs_quoting ex_reserved (Table_name (ex_conf\<lparr>Table_name := ''Files''\<rparr>))"
    by code_simp
  have q: "table_ref ex_reserved (ex_conf\<lparr>Table_name := ''Files''\<rparr>) RowCount = Some ''Files''"
    by code_simp
  have u: "table_ref ex_reserved (ex_conf\<lparr>Table_name := ''Files''\<rparr>) (UpdateHash New) = Some ''files''"
    by code_simp
  from nq q u table_quoting [of "ex_conf\<lparr>Table_name := ''Files''\<rparr>" New ex_reserved]
  show ?thesis by simp
qed

end
